theory Spec2Isabelle
  imports Main "HOL-Library.AList" "HOL-Library.Multiset"
begin

section \<open>Exceptions\<close>

text \<open>
  The exceptions of \<^verbatim>\<open>main.py\<close> that the graph model and the path finder raise, each
  carrying its message, and the built-in exceptions that a dictionary lookup, a list
  access or a comparison of the search can raise.
\<close>

datatype error =
    DuplicateRouteError string
  | StationDoesNotExistError string
  | KeyError
  | IndexError
  | TypeError

text \<open>The message built by \<^verbatim>\<open>StationDoesNotExistError.__init__\<close>.\<close>

definition station_does_not_exist_message :: "string \<Rightarrow> string" where
  "station_does_not_exist_message station_name =
     ''Station: '' @ [CHR 0x27] @ station_name @ [CHR 0x27] @ '' does not exist.''"

text \<open>The message built by \<^verbatim>\<open>Station.add_route\<close> for a duplicate route.\<close>

definition duplicate_route_message :: "string \<Rightarrow> string \<Rightarrow> string" where
  "duplicate_route_message origin_name destination_name =
     ''Route from '' @ origin_name @ '' to '' @ destination_name @ '' already exists.''"


section \<open>Stations and the station map\<close>

text \<open>
  A \<^verbatim>\<open>Station\<close> has a name and a dictionary of routes. The keys of that dictionary
  are station objects; a station map holds one object for each name, so an object is
  identified here by its name. Dictionaries keep insertion order and iteration follows
  it, so they are association lists; \<^const>\<open>AList.update\<close> replaces the value of a key
  in place and appends a new key at the end, as an assignment to a dictionary does.
\<close>

record Station =
  name :: string
  routes :: "(string \<times> int) list"

type_synonym StationMap = "(string \<times> Station) list"

definition add_station :: "StationMap \<Rightarrow> string \<Rightarrow> StationMap" where
  "add_station stations station_name =
     (if station_name \<notin> fst ` set stations
      then AList.update station_name \<lparr>name = station_name, routes = []\<rparr> stations
      else stations)"

definition Station_add_route :: "Station \<Rightarrow> Station \<Rightarrow> int \<Rightarrow> error + Station" where
  "Station_add_route self destination distance =
     (if name destination \<in> fst ` set (routes self)
      then Inl (DuplicateRouteError (duplicate_route_message (name self) (name destination)))
      else Inr (self\<lparr>routes := AList.update (name destination) distance (routes self)\<rparr>))"

text \<open>
  \<^verbatim>\<open>StationMap.add_route\<close> returns the outcome together with the station map as the call
  leaves it: the two stations are registered before the route is attempted, so the map
  of a failed call is the map after both registrations.
\<close>

definition add_route ::
  "StationMap \<Rightarrow> string \<Rightarrow> string \<Rightarrow> int \<Rightarrow> (error + unit) \<times> StationMap" where
  "add_route stations origin_name destination_name distance =
     (let s1 = add_station stations origin_name;
          s2 = add_station s1 destination_name
      in case map_of s2 origin_name of
           None \<Rightarrow> (Inl KeyError, s2)
         | Some origin \<Rightarrow>
             (case map_of s2 destination_name of
                None \<Rightarrow> (Inl KeyError, s2)
              | Some destination \<Rightarrow>
                  (case Station_add_route origin destination distance of
                     Inl e \<Rightarrow> (Inl e, s2)
                   | Inr origin' \<Rightarrow> (Inr (), AList.update origin_name origin' s2))))"

text \<open>Station maps reached from the empty one by calls of \<^const>\<open>add_route\<close>.\<close>

inductive built :: "StationMap \<Rightarrow> bool" where
  built_empty: "built []"
| built_add: "built stations \<Longrightarrow> built (snd (add_route stations a b w))"

text \<open>The edges of a station map, and what its dictionaries guarantee.\<close>

definition station_names :: "StationMap \<Rightarrow> string set" where
  "station_names stations = fst ` set stations"

definition edge :: "StationMap \<Rightarrow> string \<Rightarrow> string \<Rightarrow> int \<Rightarrow> bool" where
  "edge stations a b w =
     (case map_of stations a of None \<Rightarrow> False | Some s \<Rightarrow> map_of (routes s) b = Some w)"

definition has_route :: "StationMap \<Rightarrow> string \<Rightarrow> string \<Rightarrow> bool" where
  "has_route stations a b =
     (case map_of stations a of None \<Rightarrow> False | Some s \<Rightarrow> b \<in> fst ` set (routes s))"

definition destinations_registered :: "StationMap \<Rightarrow> bool" where
  "destinations_registered stations =
     (\<forall>(k, s) \<in> set stations. \<forall>(d, w) \<in> set (routes s). d \<in> fst ` set stations)"

definition well_formed :: "StationMap \<Rightarrow> bool" where
  "well_formed stations \<longleftrightarrow>
     distinct (map fst stations) \<and>
     (\<forall>(k, s) \<in> set stations. name s = k \<and> distinct (map fst (routes s))) \<and>
     destinations_registered stations"

definition non_negative :: "StationMap \<Rightarrow> bool" where
  "non_negative stations = (\<forall>(k, s) \<in> set stations. \<forall>(d, w) \<in> set (routes s). 0 \<le> w)"


section \<open>Distances\<close>

text \<open>
  A distance of the search is a Python integer or the float \<^verbatim>\<open>math.inf\<close>. The order is
  the one of Python's comparison of an integer with infinity.
\<close>

datatype distance = Fin int | MathInf

instantiation distance :: linorder
begin

fun less_eq_distance :: "distance \<Rightarrow> distance \<Rightarrow> bool" where
  "less_eq_distance (Fin a) (Fin b) = (a \<le> b)"
| "less_eq_distance MathInf (Fin b) = False"
| "less_eq_distance x MathInf = True"

fun less_distance :: "distance \<Rightarrow> distance \<Rightarrow> bool" where
  "less_distance (Fin a) (Fin b) = (a < b)"
| "less_distance (Fin a) MathInf = True"
| "less_distance MathInf y = False"

instance
proof
  fix x y z :: distance
  show "(x < y) = (x \<le> y \<and> \<not> y \<le> x)" by (cases x; cases y) auto
  show "x \<le> x" by (cases x) auto
  show "x \<le> y \<Longrightarrow> y \<le> z \<Longrightarrow> x \<le> z" by (cases x; cases y; cases z) auto
  show "x \<le> y \<Longrightarrow> y \<le> x \<Longrightarrow> x = y" by (cases x; cases y) auto
  show "x \<le> y \<or> y \<le> x" by (cases x; cases y) auto
qed

end

text \<open>
  \<^verbatim>\<open>dist[current_station] + weight\<close>. The distance of a popped station is an integer; the
  sum with infinity, which the search never forms, is infinity.
\<close>

fun distance_add :: "distance \<Rightarrow> int \<Rightarrow> distance" where
  "distance_add (Fin a) w = Fin (a + w)"
| "distance_add MathInf w = MathInf"


section \<open>Comparing queue entries\<close>

text \<open>
  The queue holds tuples \<^verbatim>\<open>(distance, station)\<close>. Python compares two tuples by the first
  position where they differ. For two different stations, \<^verbatim>\<open>a < b\<close> first asks
  \<^verbatim>\<open>a.__lt__(b)\<close>, which \<^verbatim>\<open>Station\<close> inherits from \<^verbatim>\<open>object\<close> and which answers
  \<^verbatim>\<open>NotImplemented\<close>, then the reflected \<^verbatim>\<open>b.__gt__(a)\<close>, which \<^verbatim>\<open>Station\<close> defines;
  when both answer \<^verbatim>\<open>NotImplemented\<close> the comparison raises \<^verbatim>\<open>TypeError\<close>.
\<close>

datatype 'a rich = NotImplemented | Returned 'a

definition object_lt :: "string \<Rightarrow> string \<Rightarrow> bool rich" where
  "object_lt self other = NotImplemented"

definition Station_gt :: "string \<Rightarrow> string \<Rightarrow> bool rich" where
  "Station_gt self other = Returned False"

definition Station_less :: "string \<Rightarrow> string \<Rightarrow> error + bool" where
  "Station_less a b =
     (case object_lt a b of
        Returned r \<Rightarrow> Inr r
      | NotImplemented \<Rightarrow>
          (case Station_gt b a of
             Returned r \<Rightarrow> Inr r
           | NotImplemented \<Rightarrow> Inl TypeError))"

type_synonym entry = "distance \<times> string"

definition tuple_less :: "entry \<Rightarrow> entry \<Rightarrow> error + bool" where
  "tuple_less x y =
     (if fst x \<noteq> fst y then Inr (fst x < fst y)
      else if snd x \<noteq> snd y then Station_less (snd x) (snd y)
      else Inr False)"


section \<open>The priority queue: \<^verbatim>\<open>heapq\<close>\<close>

text \<open>
  \<^verbatim>\<open>heappush\<close> and \<^verbatim>\<open>heappop\<close> of the standard library, on a list used as a binary heap:
  \<^verbatim>\<open>_siftdown\<close> moves an item towards the root, \<^verbatim>\<open>_siftup\<close> moves the smaller child up
  until a leaf is reached and then sifts the item down from there.
\<close>

function siftdown_loop :: "entry list \<Rightarrow> nat \<Rightarrow> nat \<Rightarrow> entry \<Rightarrow> error + entry list" where
  "siftdown_loop heap startpos pos newitem =
     (if pos > startpos then
        (let parentpos = (pos - 1) div 2;
             parent = heap ! parentpos
         in case tuple_less newitem parent of
              Inl e \<Rightarrow> Inl e
            | Inr lt \<Rightarrow>
                if lt then siftdown_loop (heap[pos := parent]) startpos parentpos newitem
                else Inr (heap[pos := newitem]))
      else Inr (heap[pos := newitem]))"
  by pat_completeness auto
termination
  by (relation "measure (\<lambda>(heap, startpos, pos, newitem). pos)") auto

definition siftdown :: "entry list \<Rightarrow> nat \<Rightarrow> nat \<Rightarrow> error + entry list" where
  "siftdown heap startpos pos =
     (if pos < length heap then siftdown_loop heap startpos pos (heap ! pos)
      else Inl IndexError)"

definition heappush :: "entry list \<Rightarrow> entry \<Rightarrow> error + entry list" where
  "heappush heap item = siftdown (heap @ [item]) 0 (length (heap @ [item]) - 1)"

function siftup_loop :: "entry list \<Rightarrow> nat \<Rightarrow> error + (entry list \<times> nat)" where
  "siftup_loop heap pos =
     (let endpos = length heap;
          childpos = 2 * pos + 1
      in if childpos < endpos then
           (let rightpos = childpos + 1
            in case (if rightpos < endpos
                     then (case tuple_less (heap ! childpos) (heap ! rightpos) of
                             Inl e \<Rightarrow> Inl e
                           | Inr lt \<Rightarrow> Inr (\<not> lt))
                     else Inr False) of
                 Inl e \<Rightarrow> Inl e
               | Inr take_right \<Rightarrow>
                   (let childpos' = (if take_right then rightpos else childpos)
                    in siftup_loop (heap[pos := heap ! childpos']) childpos'))
         else Inr (heap, pos))"
  by pat_completeness auto
termination
  by (relation "measure (\<lambda>(heap, pos). length heap - pos)") (auto split: if_splits)

definition siftup :: "entry list \<Rightarrow> nat \<Rightarrow> error + entry list" where
  "siftup heap pos =
     (if pos < length heap then
        (let newitem = heap ! pos
         in case siftup_loop heap pos of
              Inl e \<Rightarrow> Inl e
            | Inr (heap', leaf) \<Rightarrow> siftdown (heap'[leaf := newitem]) pos leaf)
      else Inl IndexError)"

definition heappop :: "entry list \<Rightarrow> error + (entry \<times> entry list)" where
  "heappop heap =
     (if heap = [] then Inl IndexError
      else (let lastelt = last heap;
                heap' = butlast heap
            in if heap' \<noteq> [] then
                 (case siftup (heap'[0 := lastelt]) 0 of
                    Inl e \<Rightarrow> Inl e
                  | Inr h \<Rightarrow> Inr (heap' ! 0, h))
               else Inr (lastelt, heap')))"


section \<open>The shortest route\<close>

record search_state =
  unvisited_stations :: "entry list"
  visited :: "string set"
  dist :: "string \<rightharpoonup> distance"
  prev :: "string \<rightharpoonup> string"

text \<open>
  \<^verbatim>\<open>_count_stops\<close> follows the predecessors back from the destination. The loop has no
  bound of its own, so the model is a partial function: \<^const>\<open>None\<close> is a walk that
  never reaches the origin.
\<close>

partial_function (option) count_stops ::
  "string \<Rightarrow> string \<Rightarrow> (string \<rightharpoonup> string) \<Rightarrow> nat \<Rightarrow> (error + nat) option" where
  "count_stops destination origin previous_stations stops =
     (case previous_stations destination of
        None \<Rightarrow> Some (Inl KeyError)
      | Some p \<Rightarrow>
          if p \<noteq> origin then count_stops p origin previous_stations (stops + 1)
          else Some (Inr stops))"

text \<open>The initial distances: one assignment for each station of the map, in order.\<close>

definition initial_dist :: "StationMap \<Rightarrow> string \<Rightarrow> (string \<rightharpoonup> distance)" where
  "initial_dist stations origin =
     foldl (\<lambda>d (k, station). d(name station \<mapsto> (if name station = origin then Fin 0 else MathInf)))
       Map.empty stations"

text \<open>
  The \<^verbatim>\<open>for\<close> loop over the routes of the current station. The weight read by
  \<^verbatim>\<open>current_station.routes[connected_station]\<close> is the one stored with the key.
\<close>

fun relax_routes ::
  "string \<Rightarrow> (string \<times> int) list \<Rightarrow> search_state \<Rightarrow> error + search_state" where
  "relax_routes current [] st = Inr st"
| "relax_routes current ((connected, w) # rest) st =
     (if connected \<notin> visited st then
        (case dist st current of
           None \<Rightarrow> Inl KeyError
         | Some dc \<Rightarrow>
             (let route_total = distance_add dc w
              in case dist st connected of
                   None \<Rightarrow> Inl KeyError
                 | Some dn \<Rightarrow>
                     if route_total < dn then
                       (case heappush (unvisited_stations st) (route_total, connected) of
                          Inl e \<Rightarrow> Inl e
                        | Inr h \<Rightarrow>
                            relax_routes current rest
                              (st\<lparr>dist := (dist st)(connected \<mapsto> route_total),
                                  prev := (prev st)(connected \<mapsto> current),
                                  unvisited_stations := h\<rparr>))
                     else relax_routes current rest st))
      else relax_routes current rest st)"

text \<open>
  The \<^verbatim>\<open>while\<close> loop of \<^verbatim>\<open>find_shortest_route\<close>. A result is the returned tuple: the
  distance, and the number of stops or \<^verbatim>\<open>None\<close>. The queue holds station objects; here
  it holds their names, and the routes of the popped station are read from the station
  map (in a well-formed map every queued name is a key, so this lookup does not fail).
  The loop has no bound of its own, so it is a partial function too.
\<close>

type_synonym route_result = "distance \<times> nat option"

partial_function (option) search ::
  "StationMap \<Rightarrow> string \<Rightarrow> string \<Rightarrow> search_state \<Rightarrow> (error + route_result) option" where
  "search stations origin destination st =
     (if length (unvisited_stations st) > 0 then
        (case heappop (unvisited_stations st) of
           Inl e \<Rightarrow> Some (Inl e)
         | Inr popped \<Rightarrow>
             (if snd (fst popped) = destination then
                (case dist st (snd (fst popped)) of
                   None \<Rightarrow> Some (Inl KeyError)
                 | Some d \<Rightarrow>
                     (case count_stops (snd (fst popped)) origin (prev st) 0 of
                        None \<Rightarrow> None
                      | Some (Inl e) \<Rightarrow> Some (Inl e)
                      | Some (Inr stops) \<Rightarrow> Some (Inr (d, Some stops))))
              else
                (case map_of stations (snd (fst popped)) of
                   None \<Rightarrow> Some (Inl KeyError)
                 | Some current_station \<Rightarrow>
                     (case relax_routes (snd (fst popped)) (routes current_station)
                             (st\<lparr>unvisited_stations := snd popped\<rparr>) of
                        Inl e \<Rightarrow> Some (Inl e)
                      | Inr st' \<Rightarrow>
                          search stations origin destination
                            (st'\<lparr>visited := insert (snd (fst popped)) (visited st')\<rparr>)))))
      else Some (Inr (MathInf, None)))"

definition find_shortest_route ::
  "StationMap \<Rightarrow> string \<Rightarrow> string \<Rightarrow> (error + route_result) option" where
  "find_shortest_route stations origin_name destination_name =
     (if origin_name \<notin> fst ` set stations
      then Some (Inl (StationDoesNotExistError (station_does_not_exist_message origin_name)))
      else if destination_name \<notin> fst ` set stations
      then Some (Inl (StationDoesNotExistError (station_does_not_exist_message destination_name)))
      else if origin_name = destination_name then Some (Inr (Fin 0, Some 0))
      else (case heappush [] (Fin 0, origin_name) of
              Inl e \<Rightarrow> Some (Inl e)
            | Inr h \<Rightarrow>
                search stations origin_name destination_name
                  \<lparr>unvisited_stations = h, visited = {},
                   dist = initial_dist stations origin_name, prev = Map.empty\<rparr>))"

declare count_stops.simps [code]
declare search.simps [code]


section \<open>The query on the memory of the call\<close>

text \<open>
  \<^verbatim>\<open>find_shortest_route\<close> once more, with everything the call can reach in one record: the
  four local objects of the search and \<^verbatim>\<open>self.stations\<close> with its stations. Every
  statement is a step on this memory; an assignment changes the object it assigns to, a
  read changes nothing. A call gives its outcome together with the memory it leaves, on
  a \<^verbatim>\<open>return\<close> as on a \<^verbatim>\<open>raise\<close>, and the caller keeps \<^verbatim>\<open>self.stations\<close>.
\<close>

record memory = search_state +
  self_stations :: StationMap

fun relax_routes_in ::
  "string \<Rightarrow> (string \<times> int) list \<Rightarrow> memory \<Rightarrow> (error + unit) \<times> memory" where
  "relax_routes_in current [] m = (Inr (), m)"
| "relax_routes_in current ((connected, w) # rest) m =
     (if connected \<notin> visited m then
        (case dist m current of
           None \<Rightarrow> (Inl KeyError, m)
         | Some dc \<Rightarrow>
             (let route_total = distance_add dc w
              in case dist m connected of
                   None \<Rightarrow> (Inl KeyError, m)
                 | Some dn \<Rightarrow>
                     if route_total < dn then
                       (let m1 = m\<lparr>dist := (dist m)(connected \<mapsto> route_total)\<rparr>;
                            m2 = m1\<lparr>prev := (prev m1)(connected \<mapsto> current)\<rparr>
                        in case heappush (unvisited_stations m2) (route_total, connected) of
                             Inl e \<Rightarrow> (Inl e, m2)
                           | Inr h \<Rightarrow>
                               relax_routes_in current rest (m2\<lparr>unvisited_stations := h\<rparr>))
                     else relax_routes_in current rest m))
      else relax_routes_in current rest m)"

partial_function (option) search_in ::
  "string \<Rightarrow> string \<Rightarrow> memory \<Rightarrow> ((error + route_result) \<times> memory) option" where
  "search_in origin destination m =
     (if length (unvisited_stations m) > 0 then
        (case heappop (unvisited_stations m) of
           Inl e \<Rightarrow> Some (Inl e, m)
         | Inr popped \<Rightarrow>
             (if snd (fst popped) = destination then
                (case dist (m\<lparr>unvisited_stations := snd popped\<rparr>) (snd (fst popped)) of
                   None \<Rightarrow> Some (Inl KeyError, m\<lparr>unvisited_stations := snd popped\<rparr>)
                 | Some d \<Rightarrow>
                     (case count_stops (snd (fst popped)) origin
                             (prev (m\<lparr>unvisited_stations := snd popped\<rparr>)) 0 of
                        None \<Rightarrow> None
                      | Some (Inl e) \<Rightarrow> Some (Inl e, m\<lparr>unvisited_stations := snd popped\<rparr>)
                      | Some (Inr stops) \<Rightarrow>
                          Some (Inr (d, Some stops), m\<lparr>unvisited_stations := snd popped\<rparr>)))
              else
                (case map_of (self_stations (m\<lparr>unvisited_stations := snd popped\<rparr>))
                        (snd (fst popped)) of
                   None \<Rightarrow> Some (Inl KeyError, m\<lparr>unvisited_stations := snd popped\<rparr>)
                 | Some current_station \<Rightarrow>
                     (case relax_routes_in (snd (fst popped)) (routes current_station)
                             (m\<lparr>unvisited_stations := snd popped\<rparr>) of
                        (Inl e, m') \<Rightarrow> Some (Inl e, m')
                      | (Inr u, m') \<Rightarrow>
                          search_in origin destination
                            (m'\<lparr>visited := insert (snd (fst popped)) (visited m')\<rparr>)))))
      else Some (Inr (MathInf, None), m))"

declare search_in.simps [code]

definition find_shortest_route_in ::
  "StationMap \<Rightarrow> string \<Rightarrow> string \<Rightarrow> ((error + route_result) \<times> StationMap) option" where
  "find_shortest_route_in stations origin_name destination_name =
     (if origin_name \<notin> fst ` set stations
      then Some (Inl (StationDoesNotExistError (station_does_not_exist_message origin_name)),
                 stations)
      else if destination_name \<notin> fst ` set stations
      then Some (Inl (StationDoesNotExistError (station_does_not_exist_message destination_name)),
                 stations)
      else if origin_name = destination_name then Some (Inr (Fin 0, Some 0), stations)
      else (case heappush [] (Fin 0, origin_name) of
              Inl e \<Rightarrow> Some (Inl e, stations)
            | Inr h \<Rightarrow>
                (case search_in origin_name destination_name
                        \<lparr>unvisited_stations = h, visited = {},
                         dist = initial_dist stations origin_name, prev = Map.empty,
                         self_stations = stations\<rparr> of
                   None \<Rightarrow> None
                 | Some (outcome, m) \<Rightarrow> Some (outcome, self_stations m))))"


section \<open>Example station maps\<close>

text \<open>The example of the specification: A to B (5), B to C (5), A to C (15).\<close>

definition example_stations :: StationMap where
  "example_stations =
     [(''A'', \<lparr>name = ''A'', routes = [(''B'', 5), (''C'', 15)]\<rparr>),
      (''B'', \<lparr>name = ''B'', routes = [(''C'', 5)]\<rparr>),
      (''C'', \<lparr>name = ''C'', routes = []\<rparr>)]"

text \<open>A map with a negative distance: A to B (2), A to C (5), C to B (-10).\<close>

definition negative_stations :: StationMap where
  "negative_stations =
     [(''A'', \<lparr>name = ''A'', routes = [(''B'', 2), (''C'', 5)]\<rparr>),
      (''B'', \<lparr>name = ''B'', routes = []\<rparr>),
      (''C'', \<lparr>name = ''C'', routes = [(''B'', - 10)]\<rparr>)]"


section \<open>The heap invariant\<close>

text \<open>
  The child that \<^verbatim>\<open>_siftup\<close> moves up, the order that \<^verbatim>\<open>heapq\<close> keeps (no entry is
  smaller than its parent), and the same order around a position that is being filled.
\<close>

definition smaller_child :: "entry list \<Rightarrow> nat \<Rightarrow> nat" where
  "smaller_child h pos =
     (if 2 * pos + 2 < length h \<and> \<not> fst (h ! (2 * pos + 1)) < fst (h ! (2 * pos + 2))
      then 2 * pos + 2 else 2 * pos + 1)"

definition heap_ordered :: "entry list \<Rightarrow> bool" where
  "heap_ordered h = (\<forall>i. 0 < i \<and> i < length h \<longrightarrow> fst (h ! ((i - 1) div 2)) \<le> fst (h ! i))"

definition heap_ordered_except :: "entry list \<Rightarrow> nat \<Rightarrow> bool" where
  "heap_ordered_except h p =
     ((\<forall>i. 0 < i \<and> i < length h \<and> i \<noteq> p \<and> (i - 1) div 2 \<noteq> p \<longrightarrow>
            fst (h ! ((i - 1) div 2)) \<le> fst (h ! i)) \<and>
      (\<forall>c. 0 < p \<and> 0 < c \<and> c < length h \<and> (c - 1) div 2 = p \<longrightarrow>
            fst (h ! ((p - 1) div 2)) \<le> fst (h ! c)))"


section \<open>Paths and the invariant of the search\<close>

text \<open>
  A directed path through the stations \<open>p\<close>, from the first to the last, with the sum of
  its distances; it has \<open>length p - 1\<close> routes. A chain is a path whose every step is a
  predecessor link of the search.
\<close>

inductive path :: "StationMap \<Rightarrow> string \<Rightarrow> string list \<Rightarrow> string \<Rightarrow> int \<Rightarrow> bool" where
  path_start: "path g a [a] a 0"
| path_extend: "path g a p b d \<Longrightarrow> edge g b c w \<Longrightarrow> path g a (p @ [c]) c (d + w)"

inductive pchain ::
  "StationMap \<Rightarrow> (string \<rightharpoonup> string) \<Rightarrow> string \<Rightarrow> string list \<Rightarrow> string \<Rightarrow> int \<Rightarrow> bool" where
  pchain_start: "pchain g pv a [a] a 0"
| pchain_extend:
    "pchain g pv a p b d \<Longrightarrow> pv c = Some b \<Longrightarrow> edge g b c w \<Longrightarrow> pchain g pv a (p @ [c]) c (d + w)"

text \<open>
  What the loop keeps, for the set \<open>T\<close> of stations that are done: predecessors are done;
  a finite distance is the length of a chain through done stations; the distance of a
  done station is minimal; a queue entry is no smaller than the distance of its station;
  a station that is not done and has a finite distance is in the queue; and every route
  from a done station to one that is not done has been relaxed.
\<close>

definition prev_settled :: "string set \<Rightarrow> (string \<rightharpoonup> string) \<Rightarrow> bool" where
  "prev_settled T pv = (\<forall>v u. pv v = Some u \<longrightarrow> u \<in> T)"

definition reached ::
  "StationMap \<Rightarrow> string \<Rightarrow> string set \<Rightarrow> (string \<rightharpoonup> distance) \<Rightarrow> (string \<rightharpoonup> string) \<Rightarrow> bool" where
  "reached g og T ds pv =
     (\<forall>v d. ds v = Some (Fin d) \<longrightarrow>
        (\<exists>p. pchain g pv og p v d \<and> distinct p \<and> set (butlast p) \<subseteq> T))"

definition settled_optimal ::
  "StationMap \<Rightarrow> string \<Rightarrow> string set \<Rightarrow> (string \<rightharpoonup> distance) \<Rightarrow> bool" where
  "settled_optimal g og T ds =
     (\<forall>u \<in> T. \<exists>du. ds u = Some (Fin du) \<and> (\<forall>p d'. path g og p u d' \<longrightarrow> du \<le> d'))"

definition queue_bounds :: "entry list \<Rightarrow> (string \<rightharpoonup> distance) \<Rightarrow> bool" where
  "queue_bounds h ds =
     (\<forall>(k, v) \<in> set h. \<exists>kd dv. k = Fin kd \<and> ds v = Some (Fin dv) \<and> dv \<le> kd)"

definition queued :: "string set \<Rightarrow> entry list \<Rightarrow> (string \<rightharpoonup> distance) \<Rightarrow> bool" where
  "queued T h ds = (\<forall>v d. v \<notin> T \<and> ds v = Some (Fin d) \<longrightarrow> (Fin d, v) \<in> set h)"

definition relaxed :: "StationMap \<Rightarrow> string set \<Rightarrow> (string \<rightharpoonup> distance) \<Rightarrow> bool" where
  "relaxed g T ds =
     (\<forall>x \<in> T. \<forall>y w. edge g x y w \<and> y \<notin> T \<longrightarrow>
        (\<exists>dx dy. ds x = Some (Fin dx) \<and> ds y = Some (Fin dy) \<and> dy \<le> dx + w))"

definition search_inv ::
  "StationMap \<Rightarrow> string \<Rightarrow> string set \<Rightarrow> entry list \<Rightarrow> (string \<rightharpoonup> distance) \<Rightarrow>
     (string \<rightharpoonup> string) \<Rightarrow> bool" where
  "search_inv g og T h ds pv \<longleftrightarrow>
     heap_ordered h \<and> dom ds = fst ` set g \<and> ds og = Some (Fin 0) \<and> pv og = None \<and>
     prev_settled T pv \<and> reached g og T ds pv \<and> settled_optimal g og T ds \<and>
     queue_bounds h ds \<and> queued T h ds"

definition outer_inv :: "StationMap \<Rightarrow> string \<Rightarrow> string \<Rightarrow> search_state \<Rightarrow> bool" where
  "outer_inv g og dest st \<longleftrightarrow>
     search_inv g og (visited st) (unvisited_stations st) (dist st) (prev st) \<and>
     relaxed g (visited st) (dist st) \<and> dest \<notin> visited st \<and> visited st \<subseteq> fst ` set g"


text \<open>
  For the search on arbitrary integer distances: a visited station is stable when none of
  its routes to a station not yet visited would still be relaxed, and the loop keeps the
  heap order, the domain of the distances and the fact that every queued station has a
  path from the origin.
\<close>

definition stable :: "StationMap \<Rightarrow> search_state \<Rightarrow> string \<Rightarrow> bool" where
  "stable g st u =
     (\<forall>cs. map_of g u = Some cs \<longrightarrow>
        (\<forall>(v, w) \<in> set (routes cs). v \<notin> visited st \<longrightarrow>
           (\<exists>du dv. dist st u = Some du \<and> dist st v = Some dv \<and> \<not> distance_add du w < dv)))"

definition reach_inv :: "StationMap \<Rightarrow> string \<Rightarrow> search_state \<Rightarrow> bool" where
  "reach_inv g og st \<longleftrightarrow>
     heap_ordered (unvisited_stations st) \<and> dom (dist st) = fst ` set g \<and>
     visited st \<subseteq> fst ` set g \<and>
     (\<forall>(k, v) \<in> set (unvisited_stations st). \<exists>p d. path g og p v d)"


section \<open>The station map and its routes\<close>

lemma update_fresh: "k \<notin> fst ` set al \<Longrightarrow> AList.update k v al = al @ [(k, v)]"
  by (induction al) auto

lemma set_update_subset: "set (AList.update k v al) \<subseteq> insert (k, v) (set al)"
  by (induction al) auto

lemma add_station_eq:
  "add_station stations n =
     (if n \<in> fst ` set stations then stations
      else stations @ [(n, \<lparr>name = n, routes = []\<rparr>)])"
  by (simp add: add_station_def update_fresh)

lemma add_station_names: "fst ` set (add_station stations n) = insert n (fst ` set stations)"
  by (auto simp: add_station_eq)

lemma add_station_present: "n \<in> fst ` set stations \<Longrightarrow> add_station stations n = stations"
  by (simp add: add_station_def)

lemma map_of_add_station:
  "map_of (add_station stations n) k =
     (if k = n \<and> n \<notin> fst ` set stations then Some \<lparr>name = n, routes = []\<rparr>
      else map_of stations k)"
  by (simp add: add_station_def update_conv')

lemma destinations_registered_add_station:
  "destinations_registered stations \<Longrightarrow> destinations_registered (add_station stations n)"
  by (fastforce simp: destinations_registered_def add_station_eq)

lemma well_formed_add_station:
  assumes wf: "well_formed stations"
  shows "well_formed (add_station stations n)"
proof (cases "n \<in> fst ` set stations")
  case True
  then show ?thesis using wf by (simp add: add_station_eq)
next
  case False
  then have eq: "add_station stations n = stations @ [(n, \<lparr>name = n, routes = []\<rparr>)]"
    by (simp add: add_station_eq)
  from wf have "destinations_registered (add_station stations n)"
    by (simp add: well_formed_def destinations_registered_add_station)
  then show ?thesis
    using wf False unfolding well_formed_def eq by auto
qed

lemma add_route_success:
  assumes "fst (add_route stations a b w) = Inr ()"
  shows "\<exists>origin destination.
           map_of (add_station (add_station stations a) b) a = Some origin \<and>
           map_of (add_station (add_station stations a) b) b = Some destination \<and>
           name destination \<notin> fst ` set (routes origin) \<and>
           snd (add_route stations a b w) =
             AList.update a (origin\<lparr>routes := routes origin @ [(name destination, w)]\<rparr>)
               (add_station (add_station stations a) b)"
  using assms
  by (auto simp: add_route_def Let_def Station_add_route_def update_fresh
           split: option.splits sum.splits if_splits)

lemma add_route_failure:
  assumes "fst (add_route stations a b w) = Inl e"
  shows "snd (add_route stations a b w) = add_station (add_station stations a) b"
  using assms
  by (auto simp: add_route_def Let_def split: option.splits sum.splits)

lemma map_of_registered:
  "destinations_registered stations \<Longrightarrow> map_of stations k = Some s \<Longrightarrow> (d, w) \<in> set (routes s)
     \<Longrightarrow> d \<in> fst ` set stations"
  unfolding destinations_registered_def by (fastforce dest: map_of_SomeD)

lemma map_of_name:
  "well_formed stations \<Longrightarrow> map_of stations k = Some s \<Longrightarrow> name s = k"
  unfolding well_formed_def by (fastforce dest: map_of_SomeD)

lemma map_of_distinct_routes:
  "well_formed stations \<Longrightarrow> map_of stations k = Some s \<Longrightarrow> distinct (map fst (routes s))"
  unfolding well_formed_def by (fastforce dest: map_of_SomeD)

lemma well_formed_update:
  assumes wf: "well_formed stations"
    and k: "k \<in> fst ` set stations"
    and s: "name s = k" "distinct (map fst (routes s))"
           "\<forall>(d, w) \<in> set (routes s). d \<in> fst ` set stations"
  shows "well_formed (AList.update k s stations)"
proof -
  have keys: "fst ` set (AList.update k s stations) = fst ` set stations"
    using k by (auto simp: dom_update)
  have sub: "\<And>x. x \<in> set (AList.update k s stations) \<Longrightarrow> x = (k, s) \<or> x \<in> set stations"
    using set_update_subset[of k s stations] by auto
  have "distinct (map fst (AList.update k s stations))"
    using wf by (simp add: well_formed_def distinct_update)
  moreover have "\<forall>(k', s') \<in> set (AList.update k s stations).
                   name s' = k' \<and> distinct (map fst (routes s'))"
    using wf s sub unfolding well_formed_def by fastforce
  moreover have "destinations_registered (AList.update k s stations)"
    unfolding destinations_registered_def keys
    using wf s sub unfolding well_formed_def destinations_registered_def by fastforce
  ultimately show ?thesis by (simp add: well_formed_def)
qed

lemma well_formed_add_route:
  assumes wf: "well_formed stations"
  shows "well_formed (snd (add_route stations a b w))"
proof (cases "fst (add_route stations a b w)")
  case (Inl e)
  then show ?thesis
    using wf by (simp add: add_route_failure well_formed_add_station)
next
  case (Inr u)
  let ?s2 = "add_station (add_station stations a) b"
  have wf2: "well_formed ?s2"
    using wf by (simp add: well_formed_add_station)
  from Inr obtain origin destination where
    o: "map_of ?s2 a = Some origin" and d: "map_of ?s2 b = Some destination" and
    fresh: "name destination \<notin> fst ` set (routes origin)" and
    eq: "snd (add_route stations a b w) =
           AList.update a (origin\<lparr>routes := routes origin @ [(name destination, w)]\<rparr>) ?s2"
    using add_route_success[of stations a b w] by auto
  have nd: "name destination = b" using map_of_name[OF wf2 d] .
  have no: "name origin = a" using map_of_name[OF wf2 o] .
  have b_in: "b \<in> fst ` set ?s2" by (simp add: add_station_names)
  have a_in: "a \<in> fst ` set ?s2" by (simp add: add_station_names)
  have reg: "\<forall>(d, w) \<in> set (routes origin). d \<in> fst ` set ?s2"
    using wf2 o unfolding well_formed_def by (auto dest: map_of_registered)
  show ?thesis
    unfolding eq
    apply (rule well_formed_update[OF wf2 a_in])
    using no fresh map_of_distinct_routes[OF wf2 o] reg nd b_in by auto
qed

lemma built_well_formed: "built stations \<Longrightarrow> well_formed stations"
proof (induction rule: built.induct)
  case built_empty
  show ?case by (simp add: well_formed_def destinations_registered_def)
next
  case (built_add stations a b w)
  then show ?case by (simp add: well_formed_add_route)
qed

lemma message_inj:
  "station_does_not_exist_message a = station_does_not_exist_message b \<Longrightarrow> a = b"
  by (simp add: station_does_not_exist_message_def)

text \<open>
  Claim C4. A query with a name that is not a key of the station map fails with
  \<^verbatim>\<open>StationDoesNotExistError\<close> for that name, whatever the map holds, so before any
  search: if the origin is missing the error names the origin, whether the destination
  is present or not, and if only the destination is missing the error names the
  destination. The message determines the name.
\<close>

theorem missing_station_error:
  "(origin_name \<notin> station_names stations \<longrightarrow>
      find_shortest_route stations origin_name destination_name =
        Some (Inl (StationDoesNotExistError (station_does_not_exist_message origin_name)))) \<and>
   (origin_name \<in> station_names stations \<and> destination_name \<notin> station_names stations \<longrightarrow>
      find_shortest_route stations origin_name destination_name =
        Some (Inl (StationDoesNotExistError (station_does_not_exist_message destination_name)))) \<and>
   (station_does_not_exist_message origin_name = station_does_not_exist_message destination_name
      \<longrightarrow> origin_name = destination_name)"
  by (simp add: find_shortest_route_def station_names_def station_does_not_exist_message_def)

theorem missing_station_error_witness:
  "''Y'' \<notin> station_names [] \<and>
   find_shortest_route [] ''Y'' ''Z'' =
     Some (Inl (StationDoesNotExistError ''Station: 'Y' does not exist.'')) \<and>
   ''A'' \<in> station_names example_stations \<and> ''Z'' \<notin> station_names example_stations \<and>
   find_shortest_route example_stations ''A'' ''Z'' =
     Some (Inl (StationDoesNotExistError ''Station: 'Z' does not exist.''))"
  using missing_station_error[of "''Y''" "[]" "''Z''"]
        missing_station_error[of "''A''" example_stations "''Z''"]
  by (simp add: station_names_def example_stations_def station_does_not_exist_message_def)

text \<open>
  Claim C6. For a station of the map, the route from the station to itself is
  \<^verbatim>\<open>(0, 0)\<close>, whatever its routes are (a route to itself included): the search is not
  run.
\<close>

theorem same_station_route:
  "origin_name \<in> station_names stations \<Longrightarrow>
     find_shortest_route stations origin_name origin_name = Some (Inr (Fin 0, Some 0))"
  by (simp add: find_shortest_route_def station_names_def)

theorem same_station_route_witness:
  "''A'' \<in> station_names [(''A'', \<lparr>name = ''A'', routes = [(''A'', 7)]\<rparr>)] \<and>
   find_shortest_route [(''A'', \<lparr>name = ''A'', routes = [(''A'', 7)]\<rparr>)] ''A'' ''A'' =
     Some (Inr (Fin 0, Some 0))"
  using same_station_route[of "''A''" "[(''A'', \<lparr>name = ''A'', routes = [(''A'', 7)]\<rparr>)]"]
  by (simp add: station_names_def)

text \<open>
  Claim C5. On a well-formed station map, when the map has a route from \<open>a\<close> to \<open>b\<close>,
  adding a route from \<open>a\<close> to \<open>b\<close> raises \<^verbatim>\<open>DuplicateRouteError\<close> for every distance, equal to the stored one or not, and
  the stored distance stays. The route in the other direction, when the map does not
  have it yet, is added whatever the forward route is, and the forward route stays.
\<close>

theorem duplicate_route_rejected:
  assumes wf: "well_formed stations" and e: "edge stations a b w0"
  shows "fst (add_route stations a b w) = Inl (DuplicateRouteError (duplicate_route_message a b)) \<and>
         edge (snd (add_route stations a b w)) a b w0 \<and>
         (\<not> has_route stations b a \<longrightarrow>
            fst (add_route stations b a w') = Inr () \<and>
            edge (snd (add_route stations b a w')) b a w' \<and>
            edge (snd (add_route stations b a w')) a b w0)"
proof -
  from e obtain s where s: "map_of stations a = Some s" and sw: "map_of (routes s) b = Some w0"
    by (auto simp: edge_def split: option.splits)
  have a_in: "a \<in> fst ` set stations" using s by (metis domI dom_map_of_conv_image_fst)
  have bw: "(b, w0) \<in> set (routes s)" using sw by (rule map_of_SomeD)
  then have b_rt: "b \<in> fst ` set (routes s)" by force
  have b_in: "b \<in> fst ` set stations"
    using wf s bw by (auto simp: well_formed_def dest: map_of_registered)
  then obtain t where t: "map_of stations b = Some t"
    by (metis domD dom_map_of_conv_image_fst)
  have ns: "name s = a" and nt: "name t = b"
    using wf s t by (auto dest: map_of_name)
  have st: "add_station (add_station stations a) b = stations"
           "add_station (add_station stations b) a = stations"
    using a_in b_in by (simp_all add: add_station_present)
  have dup: "fst (add_route stations a b w) =
               Inl (DuplicateRouteError (duplicate_route_message a b))"
    and same: "snd (add_route stations a b w) = stations"
    using s t ns nt b_rt by (simp_all add: add_route_def st Station_add_route_def)
  have rev: "fst (add_route stations b a w') = Inr () \<and>
             edge (snd (add_route stations b a w')) b a w' \<and>
             edge (snd (add_route stations b a w')) a b w0"
    if nr: "\<not> has_route stations b a"
  proof -
    from nr t have fresh: "a \<notin> fst ` set (routes t)" by (simp add: has_route_def)
    have ab: "a \<noteq> b" using fresh b_rt s t by auto
    show ?thesis
      using s t ns nt fresh ab sw
      by (simp add: add_route_def st Station_add_route_def edge_def update_conv')
  qed
  show ?thesis using dup same e rev by simp
qed

theorem duplicate_route_rejected_witness:
  "well_formed example_stations \<and> edge example_stations ''A'' ''B'' 5 \<and>
   \<not> has_route example_stations ''B'' ''A'' \<and>
   fst (add_route example_stations ''A'' ''B'' 9) =
     Inl (DuplicateRouteError ''Route from A to B already exists.'') \<and>
   edge (snd (add_route example_stations ''A'' ''B'' 9)) ''A'' ''B'' 5 \<and>
   fst (add_route example_stations ''B'' ''A'' 4) = Inr () \<and>
   edge (snd (add_route example_stations ''B'' ''A'' 4)) ''B'' ''A'' 4 \<and>
   edge (snd (add_route example_stations ''B'' ''A'' 4)) ''A'' ''B'' 5"
proof -
  have wf: "well_formed example_stations" by code_simp
  have e: "edge example_stations ''A'' ''B'' 5" by code_simp
  have nr: "\<not> has_route example_stations ''B'' ''A''" by code_simp
  have m: "duplicate_route_message ''A'' ''B'' = ''Route from A to B already exists.''"
    by (simp add: duplicate_route_message_def)
  show ?thesis
    using duplicate_route_rejected[OF wf e, of 9 4] wf e nr m by simp
qed

text \<open>
  Claim C7. In every station map built from the empty one by calls of
  \<^verbatim>\<open>add_route\<close>, every destination of a route is a key of the map, and one more call
  keeps it so.
\<close>

theorem registered_destinations_invariant:
  "built stations \<Longrightarrow>
     destinations_registered stations \<and>
     destinations_registered (snd (add_route stations a b w))"
  using built_well_formed[of stations] built_well_formed[OF built_add, of stations a b w]
  by (simp add: well_formed_def)

lemma built_example: "built example_stations"
proof -
  have 1: "snd (add_route [] ''A'' ''B'' 5) =
             [(''A'', \<lparr>name = ''A'', routes = [(''B'', 5)]\<rparr>), (''B'', \<lparr>name = ''B'', routes = []\<rparr>)]"
    by code_simp
  have 2: "snd (add_route [(''A'', \<lparr>name = ''A'', routes = [(''B'', 5)]\<rparr>),
                            (''B'', \<lparr>name = ''B'', routes = []\<rparr>)] ''B'' ''C'' 5) =
             [(''A'', \<lparr>name = ''A'', routes = [(''B'', 5)]\<rparr>),
              (''B'', \<lparr>name = ''B'', routes = [(''C'', 5)]\<rparr>),
              (''C'', \<lparr>name = ''C'', routes = []\<rparr>)]"
    by code_simp
  have 3: "snd (add_route [(''A'', \<lparr>name = ''A'', routes = [(''B'', 5)]\<rparr>),
              (''B'', \<lparr>name = ''B'', routes = [(''C'', 5)]\<rparr>),
              (''C'', \<lparr>name = ''C'', routes = []\<rparr>)] ''A'' ''C'' 15) = example_stations"
    by code_simp
  show ?thesis
    using built_add[OF built_add[OF built_add[OF built_empty, of "''A''" "''B''" 5],
                                 of "''B''" "''C''" 5], of "''A''" "''C''" 15]
    unfolding 1 2 3 .
qed

theorem registered_destinations_invariant_witness:
  "built example_stations \<and> destinations_registered example_stations \<and>
   destinations_registered (snd (add_route example_stations ''C'' ''D'' 2))"
  using registered_destinations_invariant[OF built_example, of "''C''" "''D''" 2] built_example
  by simp

text \<open>
  Claim C10. When \<^verbatim>\<open>add_route\<close> raises \<^verbatim>\<open>DuplicateRouteError\<close> on a map whose route
  destinations are all registered, the map is left exactly as it was: both stations
  were there already, so no station is created, and no route is changed.
\<close>

theorem duplicate_route_leaves_station_map:
  assumes reg: "destinations_registered stations"
    and dup: "fst (add_route stations a b w) = Inl (DuplicateRouteError m)"
  shows "snd (add_route stations a b w) = stations"
proof -
  let ?s2 = "add_station (add_station stations a) b"
  from dup obtain origin destination where
    o: "map_of ?s2 a = Some origin" and d: "map_of ?s2 b = Some destination" and
    r: "name destination \<in> fst ` set (routes origin)"
    by (auto simp: add_route_def Let_def Station_add_route_def
             split: option.splits sum.splits if_splits)
  have a_in: "a \<in> fst ` set stations"
  proof (rule ccontr)
    assume "a \<notin> fst ` set stations"
    then have "map_of ?s2 a = Some \<lparr>name = a, routes = []\<rparr>"
      by (simp add: map_of_add_station add_station_names)
    with o have "routes origin = []" by auto
    with r show False by simp
  qed
  then have s1: "add_station stations a = stations" by (simp add: add_station_present)
  have b_in: "b \<in> fst ` set stations"
  proof (rule ccontr)
    assume nb: "b \<notin> fst ` set stations"
    then have "map_of ?s2 b = Some \<lparr>name = b, routes = []\<rparr>"
      by (simp add: s1 map_of_add_station)
    with d have nd: "name destination = b" by auto
    from nb o a_in have "map_of stations a = Some origin"
      by (auto simp: s1 map_of_add_station split: if_splits)
    with reg r nd have "b \<in> fst ` set stations"
      by (auto dest: map_of_registered)
    with nb show False by simp
  qed
  then have "?s2 = stations" by (simp add: s1 add_station_present)
  then show ?thesis using dup by (simp add: add_route_failure)
qed

theorem duplicate_route_leaves_station_map_witness:
  "destinations_registered example_stations \<and>
   fst (add_route example_stations ''A'' ''C'' 3) =
     Inl (DuplicateRouteError ''Route from A to C already exists.'') \<and>
   snd (add_route example_stations ''A'' ''C'' 3) = example_stations"
proof -
  have reg: "destinations_registered example_stations" by code_simp
  have dup: "fst (add_route example_stations ''A'' ''C'' 3) =
               Inl (DuplicateRouteError ''Route from A to C already exists.'')"
    by code_simp
  show ?thesis
    using duplicate_route_leaves_station_map[OF reg dup] reg dup by simp
qed

section \<open>The priority queue\<close>

declare siftdown_loop.simps [simp del]
declare siftup_loop.simps [simp del]

lemma Station_less_total: "Station_less a b = Inr False"
  by (simp add: Station_less_def object_lt_def Station_gt_def)

lemma tuple_less_eq: "tuple_less x y = Inr (fst x < fst y)"
  by (simp add: tuple_less_def Station_less_total)

lemma siftdown_loop_stop:
  "\<not> (0 < pos \<and> fst x < fst (h ! ((pos - 1) div 2))) \<Longrightarrow>
     siftdown_loop h 0 pos x = Inr (h[pos := x])"
  by (subst siftdown_loop.simps) (auto simp: tuple_less_eq Let_def)

lemma siftdown_loop_step:
  "0 < pos \<Longrightarrow> fst x < fst (h ! ((pos - 1) div 2)) \<Longrightarrow>
     siftdown_loop h 0 pos x =
       siftdown_loop (h[pos := h ! ((pos - 1) div 2)]) 0 ((pos - 1) div 2) x"
  by (subst siftdown_loop.simps) (simp add: tuple_less_eq Let_def)

lemma siftup_loop_stop:
  "\<not> 2 * pos + 1 < length h \<Longrightarrow> siftup_loop h pos = Inr (h, pos)"
  by (subst siftup_loop.simps) (simp add: Let_def)

lemma siftup_loop_step:
  "2 * pos + 1 < length h \<Longrightarrow>
     siftup_loop h pos = siftup_loop (h[pos := h ! smaller_child h pos]) (smaller_child h pos)"
  apply (subst siftup_loop.simps)
  apply (simp only: Let_def tuple_less_eq sum.case smaller_child_def)
  apply (auto simp: numeral_2_eq_2 add.commute)
  done

lemma parent_less: "0 < i \<Longrightarrow> (i - 1) div 2 < (i::nat)"
  by arith

lemma heap_ordered_exceptD1:
  "heap_ordered_except h p \<Longrightarrow> 0 < i \<Longrightarrow> i < length h \<Longrightarrow> i \<noteq> p \<Longrightarrow> (i - 1) div 2 \<noteq> p \<Longrightarrow>
     fst (h ! ((i - 1) div 2)) \<le> fst (h ! i)"
  unfolding heap_ordered_except_def by blast

lemma heap_ordered_exceptD2:
  "heap_ordered_except h p \<Longrightarrow> 0 < p \<Longrightarrow> 0 < c \<Longrightarrow> c < length h \<Longrightarrow> (c - 1) div 2 = p \<Longrightarrow>
     fst (h ! ((p - 1) div 2)) \<le> fst (h ! c)"
  unfolding heap_ordered_except_def by blast

lemma heap_ordered_except_update1:
  assumes ex: "heap_ordered_except h p"
  shows "heap_ordered_except (h[p := v]) p"
  unfolding heap_ordered_except_def
proof (intro conjI allI impI)
  fix i assume i: "0 < i \<and> i < length (h[p := v]) \<and> i \<noteq> p \<and> (i - 1) div 2 \<noteq> p"
  then show "fst (h[p := v] ! ((i - 1) div 2)) \<le> fst (h[p := v] ! i)"
    using heap_ordered_exceptD1[OF ex, of i] by simp
next
  fix c assume c: "0 < p \<and> 0 < c \<and> c < length (h[p := v]) \<and> (c - 1) div 2 = p"
  then have "(p - 1) div 2 \<noteq> p" "c \<noteq> p" by arith+
  then show "fst (h[p := v] ! ((p - 1) div 2)) \<le> fst (h[p := v] ! c)"
    using heap_ordered_exceptD2[OF ex, of c] c by simp
qed

lemma heap_ordered_except_update:
  "heap_ordered_except (h[p := v]) p = heap_ordered_except h p"
proof
  assume "heap_ordered_except (h[p := v]) p"
  from heap_ordered_except_update1[OF this, of "h ! p"] show "heap_ordered_except h p"
    by simp
next
  assume "heap_ordered_except h p"
  then show "heap_ordered_except (h[p := v]) p" by (rule heap_ordered_except_update1)
qed

lemma heap_ordered_fill:
  assumes ex: "heap_ordered_except h p" and p: "p < length h"
    and up: "0 < p \<longrightarrow> fst (h ! ((p - 1) div 2)) \<le> fst x"
    and down: "\<forall>c. 0 < c \<and> c < length h \<and> (c - 1) div 2 = p \<longrightarrow> fst x \<le> fst (h ! c)"
  shows "heap_ordered (h[p := x])"
  unfolding heap_ordered_def
proof (intro allI impI)
  fix i assume i: "0 < i \<and> i < length (h[p := x])"
  let ?q = "(i - 1) div 2"
  have q: "?q < i" using i parent_less by simp
  show "fst (h[p := x] ! ?q) \<le> fst (h[p := x] ! i)"
  proof (cases "i = p")
    case True
    then show ?thesis using i q up p by (simp add: nth_list_update)
  next
    case ip: False
    show ?thesis
    proof (cases "?q = p")
      case True
      then show ?thesis using i ip down p by (simp add: nth_list_update)
    next
      case False
      then show ?thesis
        using i ip heap_ordered_exceptD1[OF ex, of i] by (simp add: nth_list_update)
    qed
  qed
qed

lemma siftdown_loop_correct:
  assumes "heap_ordered_except h pos" "pos < length h"
    "\<forall>c. 0 < c \<and> c < length h \<and> (c - 1) div 2 = pos \<longrightarrow> fst x \<le> fst (h ! c)"
  shows "\<exists>h'. siftdown_loop h 0 pos x = Inr h' \<and> heap_ordered h' \<and>
              mset h' = mset (h[pos := x])"
  using assms
proof (induction pos arbitrary: h rule: less_induct)
  case (less pos)
  let ?q = "(pos - 1) div 2"
  have ex: "heap_ordered_except h pos" and plen: "pos < length h" using less.prems by simp_all
  show ?case
  proof (cases "0 < pos \<and> fst x < fst (h ! ?q)")
    case False
    then have "siftdown_loop h 0 pos x = Inr (h[pos := x])"
      by (rule siftdown_loop_stop)
    moreover have "heap_ordered (h[pos := x])"
      using less.prems False by (intro heap_ordered_fill) auto
    ultimately show ?thesis by simp
  next
    case True
    then have pos: "0 < pos" and lt: "fst x < fst (h ! ?q)" by auto
    have q: "?q < pos" using pos by (rule parent_less)
    let ?h = "h[pos := h ! ?q]"
    have unf: "siftdown_loop h 0 pos x = siftdown_loop ?h 0 ?q x"
      using pos lt by (rule siftdown_loop_step)
    have sib: "fst (h ! ?q) \<le> fst (h ! c)"
      if c: "0 < c" "c < length h" "(c - 1) div 2 = ?q" "c \<noteq> pos" for c
    proof -
      have "(c - 1) div 2 \<noteq> pos" using c q by simp
      from heap_ordered_exceptD1[OF ex c(1) c(2) c(4) this] c(3) show ?thesis by simp
    qed
    have ex': "heap_ordered_except ?h ?q"
      unfolding heap_ordered_except_def
    proof (intro conjI allI impI)
      fix i assume i: "0 < i \<and> i < length ?h \<and> i \<noteq> ?q \<and> (i - 1) div 2 \<noteq> ?q"
      show "fst (?h ! ((i - 1) div 2)) \<le> fst (?h ! i)"
      proof (cases "i = pos")
        case True
        then show ?thesis using i by simp
      next
        case ip: False
        show ?thesis
        proof (cases "(i - 1) div 2 = pos")
          case True
          then have "fst (h ! ?q) \<le> fst (h ! i)"
            using heap_ordered_exceptD2[OF ex pos, of i] i by simp
          then show ?thesis using True ip i plen by (simp add: nth_list_update)
        next
          case False
          then show ?thesis
            using heap_ordered_exceptD1[OF ex, of i] i ip by (simp add: nth_list_update)
        qed
      qed
    next
      fix c assume c: "0 < ?q \<and> 0 < c \<and> c < length ?h \<and> (c - 1) div 2 = ?q"
      let ?g = "(?q - 1) div 2"
      have g: "?g < ?q" using c parent_less by simp
      have "?q < length h" "?q \<noteq> pos" "?g \<noteq> pos" using q g plen by simp_all
      then have gq: "fst (h ! ?g) \<le> fst (h ! ?q)"
        using heap_ordered_exceptD1[OF ex, of ?q] c by simp
      show "fst (?h ! ?g) \<le> fst (?h ! c)"
      proof (cases "c = pos")
        case True
        then show ?thesis using gq g q plen by (simp add: nth_list_update)
      next
        case False
        then have "fst (h ! ?q) \<le> fst (h ! c)" using sib[of c] c by simp
        then show ?thesis using gq False g q by (simp add: nth_list_update)
      qed
    qed
    have ch: "\<forall>c. 0 < c \<and> c < length ?h \<and> (c - 1) div 2 = ?q \<longrightarrow> fst x \<le> fst (?h ! c)"
    proof (intro allI impI)
      fix c assume c: "0 < c \<and> c < length ?h \<and> (c - 1) div 2 = ?q"
      show "fst x \<le> fst (?h ! c)"
      proof (cases "c = pos")
        case True
        then show ?thesis using lt plen by simp
      next
        case False
        then have "fst (h ! ?q) \<le> fst (h ! c)" using sib[of c] c by simp
        then show ?thesis using lt False by (simp add: nth_list_update)
      qed
    qed
    have len: "?q < length ?h" using q plen by simp
    from less.IH[OF q ex' len ch] obtain h' where
      h': "siftdown_loop ?h 0 ?q x = Inr h'" "heap_ordered h'" "mset h' = mset (?h[?q := x])"
      by blast
    have "mset (?h[?q := x]) = mset (h[pos := x])"
    proof -
      let ?l = "h[pos := x]"
      have "?h[?q := x] = ?l[?q := ?l ! pos, pos := ?l ! ?q]"
        using q plen by (intro nth_equalityI) (auto simp: nth_list_update)
      moreover have "mset (?l[?q := ?l ! pos, pos := ?l ! ?q]) = mset ?l"
        using q plen by (intro mset_swap) auto
      ultimately show ?thesis by simp
    qed
    then show ?thesis using h' unf by simp
  qed
qed

lemma smaller_child_props:
  assumes "2 * pos + 1 < length h"
  shows "pos < smaller_child h pos" "smaller_child h pos < length h"
    "(smaller_child h pos - 1) div 2 = pos"
    "\<And>i. 0 < i \<Longrightarrow> i < length h \<Longrightarrow> (i - 1) div 2 = pos \<Longrightarrow>
        fst (h ! smaller_child h pos) \<le> fst (h ! i)"
proof -
  show "pos < smaller_child h pos" by (simp add: smaller_child_def)
  show "smaller_child h pos < length h" using assms by (simp add: smaller_child_def)
  show "(smaller_child h pos - 1) div 2 = pos" by (simp add: smaller_child_def)
  fix i assume i: "0 < i" "i < length h" "(i - 1) div 2 = pos"
  then have "i = 2 * pos + 1 \<or> i = 2 * pos + 2" by arith
  then show "fst (h ! smaller_child h pos) \<le> fst (h ! i)"
    using i by (auto simp: smaller_child_def)
qed

lemma siftup_loop_correct:
  assumes "heap_ordered_except h pos" "pos < length h"
  shows "\<exists>h' leaf. siftup_loop h pos = Inr (h', leaf) \<and> heap_ordered_except h' leaf \<and>
           leaf < length h' \<and> length h' = length h \<and> \<not> 2 * leaf + 1 < length h' \<and>
           (\<forall>x. mset (h'[leaf := x]) = mset (h[pos := x]))"
  using assms
proof (induction "length h - pos" arbitrary: h pos rule: less_induct)
  case less
  have ex: "heap_ordered_except h pos" and plen: "pos < length h" using less.prems by simp_all
  show ?case
  proof (cases "2 * pos + 1 < length h")
    case False
    then have "siftup_loop h pos = Inr (h, pos)" by (rule siftup_loop_stop)
    then show ?thesis using ex plen False by simp
  next
    case True
    let ?c = "smaller_child h pos"
    let ?h = "h[pos := h ! ?c]"
    note sc = smaller_child_props[OF True]
    have unf: "siftup_loop h pos = siftup_loop ?h ?c" using True by (rule siftup_loop_step)
    have ex': "heap_ordered_except ?h ?c"
      unfolding heap_ordered_except_def
    proof (intro conjI allI impI)
      fix i assume i: "0 < i \<and> i < length ?h \<and> i \<noteq> ?c \<and> (i - 1) div 2 \<noteq> ?c"
      show "fst (?h ! ((i - 1) div 2)) \<le> fst (?h ! i)"
      proof (cases "i = pos")
        case True
        then have "(pos - 1) div 2 \<noteq> pos" using i by arith
        moreover have "fst (h ! ((pos - 1) div 2)) \<le> fst (h ! ?c)"
          using heap_ordered_exceptD2[OF ex _ _ sc(2) sc(3)] sc(1) i True by simp
        ultimately show ?thesis using True plen by (simp add: nth_list_update)
      next
        case ip: False
        show ?thesis
        proof (cases "(i - 1) div 2 = pos")
          case True
          then have "fst (h ! ?c) \<le> fst (h ! i)" using sc(4)[of i] i by simp
          then show ?thesis using True ip plen by (simp add: nth_list_update)
        next
          case False
          then show ?thesis
            using heap_ordered_exceptD1[OF ex, of i] i ip by (simp add: nth_list_update)
        qed
      qed
    next
      fix c assume c: "0 < ?c \<and> 0 < c \<and> c < length ?h \<and> (c - 1) div 2 = ?c"
      then have "?c < c" using parent_less[of c] by simp
      then have cp: "c \<noteq> pos" using sc(1) by simp
      have "(c - 1) div 2 \<noteq> pos" using c sc(1) by simp
      then have "fst (h ! ?c) \<le> fst (h ! c)"
        using heap_ordered_exceptD1[OF ex, of c] c cp by simp
      then show "fst (?h ! ((?c - 1) div 2)) \<le> fst (?h ! c)"
        using sc(3) cp plen by (simp add: nth_list_update)
    qed
    have m: "length ?h - ?c < length h - pos" using sc(1) sc(2) by simp
    have len: "?c < length ?h" using sc(2) by simp
    from less.hyps[OF m ex' len] obtain h' leaf where
      r: "siftup_loop ?h ?c = Inr (h', leaf)" "heap_ordered_except h' leaf"
         "leaf < length h'" "length h' = length ?h" "\<not> 2 * leaf + 1 < length h'"
         "\<forall>x. mset (h'[leaf := x]) = mset (?h[?c := x])"
      by blast
    have "mset (?h[?c := x]) = mset (h[pos := x])" for x
    proof -
      let ?l = "h[pos := x]"
      have "?h[?c := x] = ?l[pos := ?l ! ?c, ?c := ?l ! pos]"
        using sc(1) sc(2) plen by (intro nth_equalityI) (auto simp: nth_list_update)
      moreover have "mset (?l[pos := ?l ! ?c, ?c := ?l ! pos]) = mset ?l"
        using sc(2) plen by (intro mset_swap) auto
      ultimately show ?thesis by simp
    qed
    then show ?thesis using r unf by simp
  qed
qed

lemma heap_ordered_root:
  assumes "heap_ordered h" "i < length h"
  shows "fst (h ! 0) \<le> fst (h ! i)"
  using assms(2)
proof (induction i rule: less_induct)
  case (less i)
  show ?case
  proof (cases "i = 0")
    case True
    then show ?thesis by simp
  next
    case False
    then have q: "(i - 1) div 2 < i" by arith
    then have "fst (h ! 0) \<le> fst (h ! ((i - 1) div 2))" using less by simp
    moreover have "fst (h ! ((i - 1) div 2)) \<le> fst (h ! i)"
      using assms(1) False less.prems unfolding heap_ordered_def by simp
    ultimately show ?thesis by simp
  qed
qed

lemma heappush_correct:
  assumes "heap_ordered h"
  shows "\<exists>h'. heappush h x = Inr h' \<and> heap_ordered h' \<and> mset h' = add_mset x (mset h)"
proof -
  let ?g = "h @ [x]"
  have ex: "heap_ordered_except ?g (length h)"
    unfolding heap_ordered_except_def
  proof (intro conjI allI impI)
    fix i assume i: "0 < i \<and> i < length ?g \<and> i \<noteq> length h \<and> (i - 1) div 2 \<noteq> length h"
    then have "i < length h" "(i - 1) div 2 < length h" by auto
    then show "fst (?g ! ((i - 1) div 2)) \<le> fst (?g ! i)"
      using assms i unfolding heap_ordered_def by (simp add: nth_append)
  next
    fix c assume c: "0 < length h \<and> 0 < c \<and> c < length ?g \<and> (c - 1) div 2 = length h"
    then have False using parent_less[of c] by simp
    then show "fst (?g ! ((length h - 1) div 2)) \<le> fst (?g ! c)" ..
  qed
  have ch: "\<forall>c. 0 < c \<and> c < length ?g \<and> (c - 1) div 2 = length h \<longrightarrow> fst x \<le> fst (?g ! c)"
    using parent_less by fastforce
  from siftdown_loop_correct[OF ex _ ch] obtain h' where
    "siftdown_loop ?g 0 (length h) x = Inr h'" "heap_ordered h'"
    "mset h' = mset (?g[length h := x])"
    by auto
  then show ?thesis by (simp add: heappush_def siftdown_def)
qed

lemma heappop_correct:
  assumes ho: "heap_ordered h" and ne: "h \<noteq> []"
  shows "\<exists>x h'. heappop h = Inr (x, h') \<and> heap_ordered h' \<and> mset h = add_mset x (mset h') \<and>
           (\<forall>y \<in> set h. fst x \<le> fst y)"
proof -
  have root: "\<forall>y \<in> set h. fst (h ! 0) \<le> fst y"
    using heap_ordered_root[OF ho] by (metis in_set_conv_nth)
  show ?thesis
  proof (cases "butlast h = []")
    case True
    then have h: "h = [last h]" using ne by (metis append_butlast_last_id append_Nil)
    have "heappop h = Inr (last h, [])" using ne True by (simp add: heappop_def)
    moreover have "heap_ordered []" by (simp add: heap_ordered_def)
    moreover have "mset h = add_mset (last h) (mset [])" by (subst h) simp
    moreover have "h ! 0 = last h" by (subst h) simp
    ultimately show ?thesis using root by auto
  next
    case False
    let ?b = "butlast h"
    let ?l = "last h"
    let ?g = "?b[0 := ?l]"
    have blen: "0 < length ?b" using False by (metis length_greater_0_conv)
    have b0: "?b ! 0 = h ! 0" using blen by (simp add: nth_butlast)
    have ex: "heap_ordered_except ?g 0"
    proof -
      have "heap_ordered_except ?b 0"
        unfolding heap_ordered_except_def
      proof (intro conjI allI impI)
        fix i assume i: "0 < i \<and> i < length ?b \<and> i \<noteq> 0 \<and> (i - 1) div 2 \<noteq> 0"
        then have q: "(i - 1) div 2 < length ?b" using parent_less[of i] by simp
        from i have "i < length h" by auto
        then have "fst (h ! ((i - 1) div 2)) \<le> fst (h ! i)"
          using ho i unfolding heap_ordered_def by blast
        then show "fst (?b ! ((i - 1) div 2)) \<le> fst (?b ! i)"
          using q i by (simp add: nth_butlast)
      qed simp
      then show ?thesis by (simp add: heap_ordered_except_update)
    qed
    have glen: "0 < length ?g" using blen by simp
    from siftup_loop_correct[OF ex glen] obtain g' leaf where
      up: "siftup_loop ?g 0 = Inr (g', leaf)" "heap_ordered_except g' leaf"
          "leaf < length g'" "\<not> 2 * leaf + 1 < length g'"
          "\<forall>x. mset (g'[leaf := x]) = mset (?g[0 := x])"
      by blast
    let ?k = "g'[leaf := ?l]"
    have exk: "heap_ordered_except ?k leaf" using up(2) by (simp add: heap_ordered_except_update)
    have chk: "\<forall>c. 0 < c \<and> c < length ?k \<and> (c - 1) div 2 = leaf \<longrightarrow> fst ?l \<le> fst (?k ! c)"
    proof (intro allI impI)
      fix c assume c: "0 < c \<and> c < length ?k \<and> (c - 1) div 2 = leaf"
      then have "2 * leaf + 1 \<le> c" by arith
      then have False using c up(4) by simp
      then show "fst ?l \<le> fst (?k ! c)" ..
    qed
    have lk: "leaf < length ?k" using up(3) by simp
    from siftdown_loop_correct[OF exk lk chk] obtain h' where
      dn: "siftdown_loop ?k 0 leaf ?l = Inr h'" "heap_ordered h'"
          "mset h' = mset (?k[leaf := ?l])"
      by blast
    have "siftup ?g 0 = Inr h'"
      using up(1) dn(1) glen up(3) blen by (simp add: siftup_def siftdown_def Let_def)
    then have pop: "heappop h = Inr (h ! 0, h')"
      using ne False b0 by (simp add: heappop_def Let_def)
    have "mset h' = mset ?g" using dn(3) up(5) by simp
    also have "\<dots> = add_mset ?l (mset ?b - {#h ! 0#})"
      using blen b0 by (simp add: mset_update)
    finally have mh': "mset h' = add_mset ?l (mset ?b - {#h ! 0#})" .
    have "h ! 0 \<in># mset ?b" using blen b0 by (metis nth_mem_mset)
    then have "add_mset (h ! 0) (mset h') = add_mset ?l (mset ?b)"
      using mh' by simp
    also have "\<dots> = mset h" using ne by (metis append_butlast_last_id mset_append add_mset_add_single mset.simps union_mset_add_mset_right add.right_neutral)
    finally have "mset h = add_mset (h ! 0) (mset h')" by simp
    then show ?thesis using pop dn(2) root by auto
  qed
qed

lemma siftdown_loop_total: "\<exists>h'. siftdown_loop h 0 pos x = Inr h'"
proof (induction pos arbitrary: h rule: less_induct)
  case (less pos)
  show ?case
  proof (cases "0 < pos \<and> fst x < fst (h ! ((pos - 1) div 2))")
    case False
    then show ?thesis by (simp add: siftdown_loop_stop)
  next
    case True
    then have "(pos - 1) div 2 < pos" by arith
    from less[OF this] show ?thesis using True by (simp add: siftdown_loop_step)
  qed
qed

lemma siftup_loop_total:
  "pos < length h \<Longrightarrow>
     \<exists>h' leaf. siftup_loop h pos = Inr (h', leaf) \<and> leaf < length h'"
proof (induction "length h - pos" arbitrary: h pos rule: less_induct)
  case less
  show ?case
  proof (cases "2 * pos + 1 < length h")
    case False
    then show ?thesis using less.prems by (simp add: siftup_loop_stop)
  next
    case True
    let ?c = "smaller_child h pos"
    have "length (h[pos := h ! ?c]) - ?c < length h - pos" "?c < length (h[pos := h ! ?c])"
      using True by (auto simp: smaller_child_def)
    from less.hyps[OF this] show ?thesis using True by (simp add: siftup_loop_step)
  qed
qed

lemma heappush_total: "\<exists>h'. heappush h x = Inr h'"
  using siftdown_loop_total[of "h @ [x]" "length h"]
  by (simp add: heappush_def siftdown_def)

lemma heappop_total: "h \<noteq> [] \<Longrightarrow> \<exists>x h'. heappop h = Inr (x, h')"
proof -
  assume ne: "h \<noteq> []"
  show ?thesis
  proof (cases "butlast h = []")
    case True
    then show ?thesis using ne by (simp add: heappop_def)
  next
    case False
    let ?g = "(butlast h)[0 := last h]"
    have len: "0 < length ?g" using False by (metis length_greater_0_conv length_list_update)
    obtain g' leaf where up: "siftup_loop ?g 0 = Inr (g', leaf)" "leaf < length g'"
      using siftup_loop_total[OF len] by auto
    obtain h' where "siftdown_loop (g'[leaf := ?g ! 0]) 0 leaf (?g ! 0) = Inr h'"
      using siftdown_loop_total by blast
    then have "siftup ?g 0 = Inr h'" using len up
      by (simp add: siftup_def siftdown_def Let_def)
    then show ?thesis using ne False by (simp add: heappop_def Let_def)
  qed
qed

lemma heappush_no_error: "heappush h x \<noteq> Inl e"
  using heappush_total[of h x] by auto

lemma relax_routes_error: "relax_routes current rs st = Inl e \<Longrightarrow> e = KeyError"
proof (induction rs arbitrary: st)
  case Nil
  then show ?case by simp
next
  case (Cons r rs)
  obtain connected w where r: "r = (connected, w)" by (cases r)
  show ?case
    using Cons.prems Cons.IH
    unfolding r
    by (auto simp: Let_def heappush_no_error split: if_splits option.splits sum.splits)
qed

lemma count_stops_error:
  assumes "count_stops destination origin previous_stations stops = Some y"
  shows "y = Inl KeyError \<or> (\<exists>n. y = Inr n)"
  by (rule count_stops.raw_induct[where P = "\<lambda>d og p s y. y = Inl KeyError \<or> (\<exists>n. y = Inr n)",
        OF _ assms])
     (auto split: option.splits if_splits)

lemma search_error:
  assumes "search stations origin destination st = Some y"
  shows "y = Inl KeyError \<or> (\<exists>r. y = Inr r)"
proof (rule search.raw_induct[where P = "\<lambda>g og d st y. y = Inl KeyError \<or> (\<exists>r. y = Inr r)",
        OF _ assms])
  fix search :: "StationMap \<Rightarrow> string \<Rightarrow> string \<Rightarrow> search_state \<Rightarrow> (error + route_result) option"
  fix stations origin destination st y
  assume IH: "\<And>stations origin destination st y.
                search stations origin destination st = Some y \<Longrightarrow>
                y = Inl KeyError \<or> (\<exists>r. y = Inr r)"
  assume step: "(if 0 < length (unvisited_stations st)
      then case heappop (unvisited_stations st) of Inl e \<Rightarrow> Some (Inl e)
           | Inr popped \<Rightarrow>
               if snd (fst popped) = destination
               then case dist st (snd (fst popped)) of
                    None \<Rightarrow> Some (Inl KeyError)
                    | Some d \<Rightarrow>
                        case count_stops (snd (fst popped)) origin (prev st) 0 of
                        None \<Rightarrow> None | Some (Inl e) \<Rightarrow> Some (Inl e)
                        | Some (Inr stops) \<Rightarrow> Some (Inr (d, Some stops))
               else case map_of stations (snd (fst popped)) of
                    None \<Rightarrow> Some (Inl KeyError)
                    | Some current_station \<Rightarrow>
                        case relax_routes (snd (fst popped)) (routes current_station)
                              (st\<lparr>unvisited_stations := snd popped\<rparr>) of
                        Inl e \<Rightarrow> Some (Inl e)
                        | Inr st' \<Rightarrow>
                            search stations origin destination
                             (st'\<lparr>visited := insert (snd (fst popped)) (visited st')\<rparr>)
      else Some (Inr (MathInf, None))) = Some y"
  show "y = Inl KeyError \<or> (\<exists>r. y = Inr r)"
  proof (cases "unvisited_stations st = []")
    case True
    then show ?thesis using step by auto
  next
    case False
    then obtain item rest where pop: "heappop (unvisited_stations st) = Inr (item, rest)"
      using heappop_total by blast
    show ?thesis
      using step False IH pop
      by (auto split: option.splits sum.splits if_splits
               dest: relax_routes_error count_stops_error)
  qed
qed

text \<open>
  Claim C8. Comparing two queue entries never raises: for two different stations the
  reflected \<^verbatim>\<open>__gt__\<close> answers \<^verbatim>\<open>False\<close>, so the comparison of two entries is the
  comparison of their distances, and two entries with equal distances are each not
  smaller than the other. So neither \<^verbatim>\<open>heappush\<close> nor \<^verbatim>\<open>heappop\<close> raises
  \<^verbatim>\<open>TypeError\<close>, and no search does.
\<close>

theorem queue_comparisons_never_raise:
  "Station_less a b = Inr False \<and>
   tuple_less x y = Inr (fst x < fst y) \<and>
   (fst x = fst y \<longrightarrow> tuple_less x y = Inr False \<and> tuple_less y x = Inr False) \<and>
   heappush heap x \<noteq> Inl TypeError \<and>
   heappop heap \<noteq> Inl TypeError \<and>
   find_shortest_route stations origin_name destination_name \<noteq> Some (Inl TypeError)"
proof -
  have pop: "heappop heap \<noteq> Inl TypeError"
  proof (cases "heap = []")
    case True
    then show ?thesis by (simp add: heappop_def)
  next
    case False
    then show ?thesis using heappop_total[of heap] by auto
  qed
  have "find_shortest_route stations origin_name destination_name \<noteq> Some (Inl TypeError)"
  proof
    assume f: "find_shortest_route stations origin_name destination_name = Some (Inl TypeError)"
    then obtain h st where "search stations origin_name destination_name st = Some (Inl TypeError)"
      by (auto simp: find_shortest_route_def heappush_no_error split: if_splits sum.splits)
    then show False using search_error by fastforce
  qed
  then show ?thesis
    using pop by (simp add: Station_less_total tuple_less_eq heappush_no_error)
qed

theorem queue_comparisons_never_raise_witness:
  "fst (Fin 5, ''B'') = fst (Fin 5, ''C'') \<and>
   tuple_less (Fin 5, ''B'') (Fin 5, ''C'') = Inr False \<and>
   tuple_less (Fin 5, ''C'') (Fin 5, ''B'') = Inr False \<and>
   heappop [(Fin 5, ''B''), (Fin 5, ''C'')] \<noteq> Inl TypeError"
  using queue_comparisons_never_raise[of "''B''" "''C''" "(Fin 5, ''B'')" "(Fin 5, ''C'')"
          "[(Fin 5, ''B''), (Fin 5, ''C'')]" "[]" "''B''" "''C''"]
  by simp

section \<open>Paths and chains of predecessors\<close>

lemma edge_non_negative: "non_negative g \<Longrightarrow> edge g a b w \<Longrightarrow> 0 \<le> w"
  unfolding non_negative_def edge_def
  by (fastforce split: option.splits dest: map_of_SomeD)

lemma edge_registered: "destinations_registered g \<Longrightarrow> edge g a b w \<Longrightarrow> b \<in> fst ` set g"
  unfolding edge_def
  by (auto split: option.splits dest!: map_of_SomeD[of "routes _"] intro: map_of_registered)

lemma edge_source: "edge g a b w \<Longrightarrow> a \<in> fst ` set g"
  unfolding edge_def
  by (auto split: option.splits dest!: map_of_SomeD) force

lemma edge_of_route:
  "well_formed g \<Longrightarrow> map_of g a = Some s \<Longrightarrow> (b, w) \<in> set (routes s) \<Longrightarrow> edge g a b w"
  unfolding edge_def using map_of_distinct_routes[of g a s] by simp

lemma route_of_edge:
  "edge g a b w \<Longrightarrow> \<exists>s. map_of g a = Some s \<and> (b, w) \<in> set (routes s)"
  unfolding edge_def by (auto split: option.splits dest: map_of_SomeD)

lemma path_non_negative: "path g a p b d \<Longrightarrow> non_negative g \<Longrightarrow> 0 \<le> d"
  by (induction rule: path.induct) (auto dest: edge_non_negative)

lemma path_last: "path g a p b d \<Longrightarrow> p \<noteq> [] \<and> last p = b \<and> hd p = a"
  by (induction rule: path.induct) auto

lemma pchain_path: "pchain g pv a p b d \<Longrightarrow> path g a p b d"
  by (induction rule: pchain.induct) (auto intro: path.intros)

lemma pchain_last: "pchain g pv a p b d \<Longrightarrow> p \<noteq> [] \<and> last p = b \<and> hd p = a"
  by (drule pchain_path) (rule path_last)

lemma pchain_cong:
  "pchain g pv a p b d \<Longrightarrow> (\<forall>x \<in> set p. pv' x = pv x) \<Longrightarrow> pchain g pv' a p b d"
proof (induction rule: pchain.induct)
  case (pchain_start g pv a)
  show ?case by (rule pchain.pchain_start)
next
  case (pchain_extend g pv a p b d c w)
  then show ?case by (auto intro: pchain.pchain_extend)
qed

lemma pchain_origin:
  assumes "pchain g pv a p b d" "b = a" "pv a = None"
  shows "p = [a] \<and> d = 0"
  using assms by (induction rule: pchain.induct) auto

lemma pchain_length:
  assumes "pchain g pv a p b d" "b \<noteq> a"
  shows "2 \<le> length p"
  using assms by (induction rule: pchain.induct) (auto dest: pchain_last simp: Suc_le_eq)

lemma count_stops_pchain:
  assumes "pchain g pv a p b d" "b \<noteq> a" "pv a = None"
  shows "count_stops b a pv n = Some (Inr (n + length p - 2))"
  using assms
proof (induction arbitrary: n rule: pchain.induct)
  case (pchain_start g pv a)
  then show ?case by simp
next
  case (pchain_extend g pv a p b d c w)
  show ?case
  proof (cases "b = a")
    case True
    then have "p = [a]" using pchain_origin[OF pchain_extend.hyps(1)] pchain_extend.prems by simp
    then show ?thesis using True pchain_extend.hyps(2) by (subst count_stops.simps) simp
  next
    case False
    then have len: "2 \<le> length p" using pchain_length[OF pchain_extend.hyps(1)] by simp
    have "count_stops b a pv (n + 1) = Some (Inr (n + 1 + length p - 2))"
      using pchain_extend.IH[OF False pchain_extend.prems(2)] .
    then show ?thesis using False len pchain_extend.hyps(2)
      by (subst count_stops.simps) simp
  qed
qed

text \<open>A path that leaves a set of stations has an edge that leaves it.\<close>

lemma path_leaves:
  assumes "path g a p b d" "non_negative g" "a \<in> S" "b \<notin> S"
  shows "\<exists>q x y w dx. path g a q x dx \<and> x \<in> S \<and> y \<notin> S \<and> edge g x y w \<and> dx + w \<le> d"
  using assms
proof (induction rule: path.induct)
  case (path_start g a)
  then show ?case by simp
next
  case (path_extend g a p b d c w)
  have w: "0 \<le> w" using path_extend.hyps(2) path_extend.prems(1) by (rule edge_non_negative[rotated])
  show ?case
  proof (cases "b \<in> S")
    case True
    then show ?thesis using path_extend.hyps path_extend.prems by (intro exI[of _ p] exI[of _ b] exI[of _ c] exI[of _ w] exI[of _ d]) simp
  next
    case False
    from path_extend.IH[OF path_extend.prems(1,2) False] obtain q x y w' dx where
      "path g a q x dx" "x \<in> S" "y \<notin> S" "edge g x y w'" "dx + w' \<le> d" by blast
    then show ?thesis using w by (intro exI[of _ q] exI[of _ x] exI[of _ y] exI[of _ w'] exI[of _ dx]) simp
  qed
qed


section \<open>The loop keeps its invariant\<close>

lemma reached_path:
  "reached g og T ds pv \<Longrightarrow> ds v = Some (Fin d) \<Longrightarrow> \<exists>p. path g og p v d"
  unfolding reached_def by (blast dest: pchain_path)

lemma relax_update_inv:
  assumes inv: "search_inv g og T h ds pv" and nn: "non_negative g"
    and reg: "destinations_registered g"
    and u: "u \<in> T" "ds u = Some (Fin du)" and e: "edge g u v w"
    and lt: "ds v = Some dn" "Fin (du + w) < dn"
    and push: "heap_ordered h'" "mset h' = add_mset (Fin (du + w), v) (mset h)"
  shows "search_inv g og T h' (ds(v \<mapsto> Fin (du + w))) (pv(v \<mapsto> u))" and "v \<notin> T"
proof -
  let ?ds = "ds(v \<mapsto> Fin (du + w))" and ?pv = "pv(v \<mapsto> u)"
  have ho: "heap_ordered h" and dm: "dom ds = fst ` set g" and og0: "ds og = Some (Fin 0)"
    and pog: "pv og = None" and ps: "prev_settled T pv" and re: "reached g og T ds pv"
    and so: "settled_optimal g og T ds" and qb: "queue_bounds h ds" and qd: "queued T h ds"
    using inv unfolding search_inv_def by simp_all
  have seth: "set h' = insert (Fin (du + w), v) (set h)"
    using push(2) by (metis set_mset_add_mset_insert set_mset_mset)
  obtain pu where pu: "pchain g pv og pu u du" "distinct pu" "set (butlast pu) \<subseteq> T"
    using re u(2) unfolding reached_def by blast
  have pathu: "path g og pu u du" using pu(1) by (rule pchain_path)
  have du0: "0 \<le> du" using pathu nn by (rule path_non_negative)
  have w0: "0 \<le> w" using nn e by (rule edge_non_negative)
  show vT: "v \<notin> T"
  proof
    assume "v \<in> T"
    then obtain dv where dv: "ds v = Some (Fin dv)" "\<forall>p d'. path g og p v d' \<longrightarrow> dv \<le> d'"
      using so unfolding settled_optimal_def by blast
    have "path g og (pu @ [v]) v (du + w)" using pathu e by (rule path_extend)
    then have "dv \<le> du + w" using dv(2) by blast
    then show False using lt dv(1) by auto
  qed
  have vog: "v \<noteq> og"
  proof
    assume "v = og"
    then have "dn = Fin 0" using lt(1) og0 by simp
    then show False using lt(2) du0 w0 by auto
  qed
  have setpu: "set pu \<subseteq> T"
  proof -
    have "pu \<noteq> []" "last pu = u" using pchain_last[OF pu(1)] by simp_all
    then have "set pu = insert u (set (butlast pu))"
      by (metis append_butlast_last_id list.simps(15) set_append Un_insert_right
            sup_bot.right_neutral empty_set)
    then show ?thesis using pu(3) u(1) by simp
  qed
  have "heap_ordered h'" by (rule push(1))
  moreover have "dom ?ds = fst ` set g"
    using dm edge_registered[OF reg e] by auto
  moreover have "?ds og = Some (Fin 0)" using og0 vog by simp
  moreover have "?pv og = None" using pog vog by simp
  moreover have "prev_settled T ?pv" using ps u(1) unfolding prev_settled_def by simp
  moreover have "reached g og T ?ds ?pv"
    unfolding reached_def
  proof (intro allI impI)
    fix y d assume y: "?ds y = Some (Fin d)"
    show "\<exists>p. pchain g ?pv og p y d \<and> distinct p \<and> set (butlast p) \<subseteq> T"
    proof (cases "y = v")
      case True
      then have d: "d = du + w" using y by simp
      have "pchain g ?pv og pu u du"
        using pu(1) setpu vT by (intro pchain_cong[OF pu(1)]) auto
      then have "pchain g ?pv og (pu @ [v]) v (du + w)"
        using e by (intro pchain_extend) auto
      moreover have "distinct (pu @ [v])" using pu(2) setpu vT by auto
      moreover have "set (butlast (pu @ [v])) \<subseteq> T" using setpu by simp
      ultimately show ?thesis using True d by blast
    next
      case False
      then have "ds y = Some (Fin d)" using y by simp
      then obtain p where p: "pchain g pv og p y d" "distinct p" "set (butlast p) \<subseteq> T"
        using re unfolding reached_def by blast
      have "p \<noteq> []" "last p = y" using pchain_last[OF p(1)] by simp_all
      then have "set p = insert y (set (butlast p))"
        by (metis append_butlast_last_id list.simps(15) set_append Un_insert_right
              sup_bot.right_neutral empty_set)
      then have "v \<notin> set p" using p(3) vT False by auto
      then have "pchain g ?pv og p y d" by (intro pchain_cong[OF p(1)]) auto
      then show ?thesis using p by blast
    qed
  qed
  moreover have "settled_optimal g og T ?ds"
    using so vT unfolding settled_optimal_def by (metis fun_upd_apply)
  moreover have "queue_bounds h' ?ds"
    unfolding queue_bounds_def seth
  proof (intro ballI, clarify)
    fix k y assume ky: "(k, y) \<in> insert (Fin (du + w), v) (set h)"
    show "\<exists>kd dv. k = Fin kd \<and> ?ds y = Some (Fin dv) \<and> dv \<le> kd"
    proof (cases "(k, y) = (Fin (du + w), v)")
      case True
      then show ?thesis by simp
    next
      case False
      then have "(k, y) \<in> set h" using ky by auto
      then obtain kd dv where kd: "k = Fin kd" "ds y = Some (Fin dv)" "dv \<le> kd"
        using qb unfolding queue_bounds_def by fastforce
      show ?thesis
      proof (cases "y = v")
        case True
        then have "dn = Fin dv" using kd(2) lt(1) by simp
        then have "du + w \<le> kd" using lt(2) kd(3) by auto
        then show ?thesis using True kd(1) by simp
      next
        case False
        then show ?thesis using kd by simp
      qed
    qed
  qed
  moreover have "queued T h' ?ds"
    using qd unfolding queued_def seth by auto
  ultimately show "search_inv g og T h' ?ds ?pv" unfolding search_inv_def by simp
qed

lemma relax_routes_noop:
  assumes "dist st u = Some (Fin du)"
    "\<forall>(v, w) \<in> set rs. v \<notin> visited st \<longrightarrow> (\<exists>dv. dist st v = Some (Fin dv) \<and> dv \<le> du + w)"
  shows "relax_routes u rs st = Inr st"
  using assms
proof (induction rs)
  case Nil
  show ?case by simp
next
  case (Cons r rs)
  obtain v w where r: "r = (v, w)" by (cases r)
  have rest: "relax_routes u rs st = Inr st" using Cons by simp
  show ?case
  proof (cases "v \<in> visited st")
    case True
    then show ?thesis using rest r by simp
  next
    case False
    then obtain dv where "dist st v = Some (Fin dv)" "dv \<le> du + w"
      using Cons.prems(2) r by auto
    then show ?thesis using rest r False Cons.prems(1) by (simp add: Let_def)
  qed
qed

lemma relax_routes_inv:
  assumes nn: "non_negative g" and reg: "destinations_registered g"
    and u: "u \<in> T" and es: "\<forall>(v, w) \<in> set rs. edge g u v w"
    and inv: "search_inv g og T (unvisited_stations st) (dist st) (prev st)"
    and du: "dist st u = Some (Fin du)"
    and vis: "visited st \<subseteq> T"
  shows "\<exists>st'. relax_routes u rs st = Inr st' \<and>
           search_inv g og T (unvisited_stations st') (dist st') (prev st') \<and>
           visited st' = visited st \<and>
           (\<forall>x \<in> T. dist st' x = dist st x) \<and>
           (\<forall>y d. dist st y = Some (Fin d) \<longrightarrow> (\<exists>d'. dist st' y = Some (Fin d') \<and> d' \<le> d)) \<and>
           (\<forall>(v, w) \<in> set rs. v \<notin> T \<longrightarrow> (\<exists>dv. dist st' v = Some (Fin dv) \<and> dv \<le> du + w))"
  using es inv du vis
proof (induction rs arbitrary: st)
  case Nil
  then show ?case by simp
next
  case (Cons r rs)
  obtain v w where r: "r = (v, w)" by (cases r)
  have e: "edge g u v w" and es': "\<forall>(v, w) \<in> set rs. edge g u v w"
    using Cons.prems(1) r by auto
  have inv: "search_inv g og T (unvisited_stations st) (dist st) (prev st)"
    and du: "dist st u = Some (Fin du)" and vis: "visited st \<subseteq> T"
    using Cons.prems by simp_all
  have "v \<in> dom (dist st)"
    using inv edge_registered[OF reg e] unfolding search_inv_def by simp
  then obtain dn where dn: "dist st v = Some dn" by auto
  let ?update = "v \<notin> visited st \<and> Fin (du + w) < dn"
  show ?case
  proof (cases ?update)
    case False
    then have unf: "relax_routes u (r # rs) st = relax_routes u rs st"
      using r du dn by (auto simp: Let_def)
    from Cons.IH[OF es' inv du vis] obtain st' where
      st': "relax_routes u rs st = Inr st'"
        "search_inv g og T (unvisited_stations st') (dist st') (prev st')"
        "visited st' = visited st"
        "\<forall>x \<in> T. dist st' x = dist st x"
        "\<forall>y d. dist st y = Some (Fin d) \<longrightarrow> (\<exists>d'. dist st' y = Some (Fin d') \<and> d' \<le> d)"
        "\<forall>(v, w) \<in> set rs. v \<notin> T \<longrightarrow> (\<exists>dv. dist st' v = Some (Fin dv) \<and> dv \<le> du + w)"
      by blast
    have "\<exists>dv. dist st' v = Some (Fin dv) \<and> dv \<le> du + w" if "v \<notin> T"
    proof -
      from that vis have "v \<notin> visited st" by auto
      with False have "\<not> Fin (du + w) < dn" by simp
      then obtain dv where "dn = Fin dv" "dv \<le> du + w" by (cases dn) auto
      then show ?thesis using st'(5) dn by fastforce
    qed
    then show ?thesis using unf st' r by auto
  next
    case True
    obtain h' where h': "heappush (unvisited_stations st) (Fin (du + w), v) = Inr h'"
      "heap_ordered h'" "mset h' = add_mset (Fin (du + w), v) (mset (unvisited_stations st))"
      using heappush_correct[of "unvisited_stations st" "(Fin (du + w), v)"] inv
      unfolding search_inv_def by auto
    let ?st1 = "st\<lparr>dist := (dist st)(v \<mapsto> Fin (du + w)), prev := (prev st)(v \<mapsto> u),
                   unvisited_stations := h'\<rparr>"
    have unf: "relax_routes u (r # rs) st = relax_routes u rs ?st1"
      using r du dn True h'(1) by (simp add: Let_def)
    have upd: "search_inv g og T h' ((dist st)(v \<mapsto> Fin (du + w))) ((prev st)(v \<mapsto> u))"
      and vT: "v \<notin> T"
      using relax_update_inv[OF inv nn reg u du e dn _ h'(2,3)] True by simp_all
    have inv1: "search_inv g og T (unvisited_stations ?st1) (dist ?st1) (prev ?st1)"
      using upd by simp
    have du1: "dist ?st1 u = Some (Fin du)" using du vT u by auto
    have vis1: "visited ?st1 \<subseteq> T" using vis by simp
    from Cons.IH[OF es' inv1 du1 vis1] obtain st' where
      st': "relax_routes u rs ?st1 = Inr st'"
        "search_inv g og T (unvisited_stations st') (dist st') (prev st')"
        "visited st' = visited ?st1"
        "\<forall>x \<in> T. dist st' x = dist ?st1 x"
        "\<forall>y d. dist ?st1 y = Some (Fin d) \<longrightarrow> (\<exists>d'. dist st' y = Some (Fin d') \<and> d' \<le> d)"
        "\<forall>(v, w) \<in> set rs. v \<notin> T \<longrightarrow> (\<exists>dv. dist st' v = Some (Fin dv) \<and> dv \<le> du + w)"
      by blast
    have v1: "dist ?st1 v = Some (Fin (du + w))" by simp
    from st'(5) v1 have c: "\<exists>dv. dist st' v = Some (Fin dv) \<and> dv \<le> du + w" by blast
    have a: "\<forall>x \<in> T. dist st' x = dist st x" using st'(4) vT by auto
    have b: "\<exists>d'. dist st' y = Some (Fin d') \<and> d' \<le> d" if y: "dist st y = Some (Fin d)" for y d
    proof (cases "y = v")
      case True
      then have "dn = Fin d" using y dn by simp
      then have "du + w \<le> d" using \<open>?update\<close> by auto
      moreover obtain d' where "dist st' v = Some (Fin d')" "d' \<le> du + w"
        using c by blast
      ultimately show ?thesis using True by auto
    next
      case False
      then have "dist ?st1 y = Some (Fin d)" using y by simp
      then show ?thesis using st'(5) by blast
    qed
    show ?thesis using unf st'(1,2,3,6) a b c r by auto
  qed
qed

lemma search_empty:
  "unvisited_stations st = [] \<Longrightarrow> search g og dest st = Some (Inr (MathInf, None))"
  by (subst search.simps) simp

lemma search_found:
  "unvisited_stations st \<noteq> [] \<Longrightarrow> heappop (unvisited_stations st) = Inr ((k, u), rest) \<Longrightarrow>
   u = dest \<Longrightarrow> dist st u = Some d \<Longrightarrow> count_stops u og (prev st) 0 = Some (Inr n) \<Longrightarrow>
   search g og dest st = Some (Inr (d, Some n))"
  by (subst search.simps) simp

lemma search_continue:
  "unvisited_stations st \<noteq> [] \<Longrightarrow> heappop (unvisited_stations st) = Inr ((k, u), rest) \<Longrightarrow>
   u \<noteq> dest \<Longrightarrow> map_of g u = Some cs \<Longrightarrow>
   relax_routes u (routes cs) (st\<lparr>unvisited_stations := rest\<rparr>) = Inr st' \<Longrightarrow>
   search g og dest st = search g og dest (st'\<lparr>visited := insert u (visited st')\<rparr>)"
  by (subst search.simps) simp

lemma popped_optimal:
  assumes inv: "search_inv g og S h ds pv" and rel: "relaxed g S ds" and nn: "non_negative g"
    and pop: "(k, u) \<in> set h" "\<forall>y \<in> set h. k \<le> fst y"
  shows "\<exists>du. ds u = Some (Fin du) \<and> (\<forall>p d'. path g og p u d' \<and> u \<notin> S \<longrightarrow> du \<le> d')"
proof -
  have og0: "ds og = Some (Fin 0)" and so: "settled_optimal g og S ds"
    and qb: "queue_bounds h ds" and qd: "queued S h ds"
    using inv unfolding search_inv_def by simp_all
  obtain kd du where kd: "k = Fin kd" "ds u = Some (Fin du)" "du \<le> kd"
    using qb pop(1) unfolding queue_bounds_def by fastforce
  have "du \<le> d'" if p: "path g og p u d'" and uS: "u \<notin> S" for p d'
  proof (cases "og \<in> S")
    case True
    from path_leaves[OF p nn True uS] obtain q x y w dx where
      l: "path g og q x dx" "x \<in> S" "y \<notin> S" "edge g x y w" "dx + w \<le> d'" by blast
    obtain dx0 where dx0: "ds x = Some (Fin dx0)" "dx0 \<le> dx"
      using so l(1,2) unfolding settled_optimal_def by blast
    obtain dx1 dy where dy: "ds x = Some (Fin dx1)" "ds y = Some (Fin dy)" "dy \<le> dx1 + w"
      using rel l(2,3,4) unfolding relaxed_def by blast
    have "(Fin dy, y) \<in> set h" using qd l(3) dy(2) unfolding queued_def by blast
    then have "k \<le> Fin dy" using pop(2) by fastforce
    then have "kd \<le> dy" using kd(1) by simp
    moreover have "dx1 = dx0" using dx0(1) dy(1) by simp
    ultimately show ?thesis using kd(3) dy(3) dx0(2) l(5) by linarith
  next
    case False
    then have "(Fin 0, og) \<in> set h" using qd og0 unfolding queued_def by blast
    then have "k \<le> Fin 0" using pop(2) by fastforce
    then have "kd \<le> 0" using kd(1) by simp
    moreover have "0 \<le> d'" using p nn by (rule path_non_negative)
    ultimately show ?thesis using kd(3) by linarith
  qed
  then show ?thesis using kd(2) by blast
qed

lemma popped_rest:
  assumes "mset h = add_mset item (mset rest)"
  shows "item \<in> set h" "set rest \<subseteq> set h" "length rest < length h"
    "\<And>e. e \<in> set h \<Longrightarrow> e \<noteq> item \<Longrightarrow> e \<in> set rest"
proof -
  have s: "set h = insert item (set rest)"
    using assms by (metis set_mset_add_mset_insert set_mset_mset)
  show "item \<in> set h" "set rest \<subseteq> set h" using s by auto
  show "\<And>e. e \<in> set h \<Longrightarrow> e \<noteq> item \<Longrightarrow> e \<in> set rest" using s by auto
  have "size (mset h) = Suc (size (mset rest))" using assms by simp
  then show "length rest < length h" by simp
qed

lemma inv_after_pop:
  assumes inv: "search_inv g og S h ds pv"
    and rest: "heap_ordered rest" "mset h = add_mset (k, u) (mset rest)"
    and opt: "\<exists>du. ds u = Some (Fin du) \<and> (\<forall>p d'. path g og p u d' \<longrightarrow> du \<le> d')"
  shows "search_inv g og (insert u S) rest ds pv"
proof -
  have dm: "dom ds = fst ` set g" and og0: "ds og = Some (Fin 0)"
    and pog: "pv og = None" and ps: "prev_settled S pv" and re: "reached g og S ds pv"
    and so: "settled_optimal g og S ds" and qb: "queue_bounds h ds" and qd: "queued S h ds"
    using inv unfolding search_inv_def by simp_all
  note pr = popped_rest[OF rest(2)]
  have "prev_settled (insert u S) pv" using ps unfolding prev_settled_def by blast
  moreover have "reached g og (insert u S) ds pv"
    using re unfolding reached_def by (meson subset_insertI2)
  moreover have "settled_optimal g og (insert u S) ds"
    using so opt unfolding settled_optimal_def by blast
  moreover have "queue_bounds rest ds"
    using qb pr(2) unfolding queue_bounds_def by blast
  moreover have "queued (insert u S) rest ds"
    unfolding queued_def
  proof (intro allI impI)
    fix v d assume v: "v \<notin> insert u S \<and> ds v = Some (Fin d)"
    then have "(Fin d, v) \<in> set h" using qd unfolding queued_def by blast
    moreover have "(Fin d, v) \<noteq> (k, u)" using v by auto
    ultimately show "(Fin d, v) \<in> set rest" by (rule pr(4))
  qed
  ultimately show ?thesis using rest(1) dm og0 pog unfolding search_inv_def by simp
qed

lemma station_lookup: "u \<in> fst ` set g \<Longrightarrow> \<exists>cs. map_of g u = Some cs"
  by (metis domD dom_map_of_conv_image_fst)

lemma search_total:
  assumes wf: "well_formed g" and nn: "non_negative g" and ne: "og \<noteq> dest"
    and oi: "outer_inv g og dest st"
  shows "(\<exists>p d. search g og dest st = Some (Inr (Fin d, Some (length p - 2))) \<and>
            path g og p dest d \<and> distinct p \<and> (\<forall>p' d'. path g og p' dest d' \<longrightarrow> d \<le> d')) \<or>
         (search g og dest st = Some (Inr (MathInf, None)) \<and> (\<forall>p d. \<not> path g og p dest d))"
  using oi
proof (induction st rule: wf_induct_rule[OF wf_measures[of
          "[\<lambda>st. card (fst ` set g - visited st), \<lambda>st. length (unvisited_stations st)]"]])
  case (1 st)
  let ?S = "visited st" and ?h = "unvisited_stations st" and ?ds = "dist st" and ?pv = "prev st"
  have reg: "destinations_registered g" using wf by (simp add: well_formed_def)
  have inv: "search_inv g og ?S ?h ?ds ?pv" and rel: "relaxed g ?S ?ds"
    and dS: "dest \<notin> ?S" and Sg: "?S \<subseteq> fst ` set g"
    using 1(2) unfolding outer_inv_def by simp_all
  have ho: "heap_ordered ?h" and dm: "dom ?ds = fst ` set g" and og0: "?ds og = Some (Fin 0)"
    and pog: "?pv og = None" and re: "reached g og ?S ?ds ?pv"
    and so: "settled_optimal g og ?S ?ds" and qd: "queued ?S ?h ?ds"
    using inv unfolding search_inv_def by simp_all
  show ?case
  proof (cases "?h = []")
    case True
    have "\<not> path g og p dest d" for p d
    proof
      assume p: "path g og p dest d"
      have "og \<in> ?S" using qd og0 True unfolding queued_def by fastforce
      from path_leaves[OF p nn this dS] obtain q x y w dx where
        l: "path g og q x dx" "x \<in> ?S" "y \<notin> ?S" "edge g x y w" by blast
      then obtain dy where "?ds y = Some (Fin dy)" using rel unfolding relaxed_def by blast
      then show False using qd l(3) True unfolding queued_def by fastforce
    qed
    then show ?thesis using search_empty[OF True] by simp
  next
    case False
    from heappop_correct[OF ho False] obtain item rest where
      pop: "heappop ?h = Inr (item, rest)" "heap_ordered rest"
        "mset ?h = add_mset item (mset rest)" "\<forall>y \<in> set ?h. fst item \<le> fst y"
      by blast
    obtain k u where item: "item = (k, u)" by (cases item)
    note pr = popped_rest[OF pop(3)]
    have mem: "(k, u) \<in> set ?h" using pr(1) item by simp
    have mn: "\<forall>y \<in> set ?h. k \<le> fst y" using pop(4) item by simp
    from popped_optimal[OF inv rel nn mem mn] obtain du where
      du: "?ds u = Some (Fin du)" "\<forall>p d'. path g og p u d' \<and> u \<notin> ?S \<longrightarrow> du \<le> d'"
      by blast
    have opt: "\<exists>du. ?ds u = Some (Fin du) \<and> (\<forall>p d'. path g og p u d' \<longrightarrow> du \<le> d')"
    proof (cases "u \<in> ?S")
      case True
      then show ?thesis using so unfolding settled_optimal_def by blast
    next
      case False
      then show ?thesis using du by blast
    qed
    show ?thesis
    proof (cases "u = dest")
      case True
      obtain p where p: "pchain g ?pv og p dest du" "distinct p"
        using re du(1) True unfolding reached_def by blast
      have cs: "count_stops dest og ?pv 0 = Some (Inr (0 + length p - 2))"
        using p(1) ne pog by (intro count_stops_pchain) auto
      have "search g og dest st = Some (Inr (Fin du, Some (length p - 2)))"
        using search_found[OF False pop(1)[unfolded item] True, of "Fin du" og "length p - 2" g]
          du(1) cs True by simp
      moreover have "path g og p dest du" using p(1) by (rule pchain_path)
      moreover have "\<forall>p' d'. path g og p' dest d' \<longrightarrow> du \<le> d'"
        using du(2) True dS by blast
      ultimately show ?thesis using p(2) by blast
    next
      case nd: False
      let ?T = "insert u ?S"
      let ?st0 = "st\<lparr>unvisited_stations := rest\<rparr>"
      have ug: "u \<in> fst ` set g" using du(1) dm by auto
      from station_lookup[OF ug] obtain cs where cs: "map_of g u = Some cs" by blast
      have es: "\<forall>(v, w) \<in> set (routes cs). edge g u v w"
        using edge_of_route[OF wf cs] by auto
      have invT: "search_inv g og ?T (unvisited_stations ?st0) (dist ?st0) (prev ?st0)"
        using inv_after_pop[OF inv pop(2) pop(3)[unfolded item] opt] by simp
      have du0: "dist ?st0 u = Some (Fin du)" using du(1) by simp
      have vis0: "visited ?st0 \<subseteq> ?T" by auto
      show ?thesis
      proof (cases "u \<in> ?S")
        case True
        have "\<forall>(v, w) \<in> set (routes cs). v \<notin> visited ?st0 \<longrightarrow>
                (\<exists>dv. dist ?st0 v = Some (Fin dv) \<and> dv \<le> du + w)"
        proof (intro ballI, clarify)
          fix v w assume vw: "(v, w) \<in> set (routes cs)" "v \<notin> visited ?st0"
          then have "edge g u v w" using es by auto
          then obtain dx dy where "?ds u = Some (Fin dx)" "?ds v = Some (Fin dy)" "dy \<le> dx + w"
            using rel True vw(2) unfolding relaxed_def by fastforce
          then show "\<exists>dv. dist ?st0 v = Some (Fin dv) \<and> dv \<le> du + w"
            using du(1) by simp
        qed
        from relax_routes_noop[OF du0 this]
        have rr: "relax_routes u (routes cs) ?st0 = Inr ?st0" .
        let ?st1 = "?st0\<lparr>visited := insert u (visited ?st0)\<rparr>"
        have unf: "search g og dest st = search g og dest ?st1"
          using search_continue[OF False pop(1)[unfolded item] nd cs rr] .
        have TS: "?T = ?S" using True by auto
        have "outer_inv g og dest ?st1"
          unfolding outer_inv_def using invT rel dS Sg TS by simp
        moreover have "(?st1, st) \<in> measures
            [\<lambda>st. card (fst ` set g - visited st), \<lambda>st. length (unvisited_stations st)]"
          using pr(3) TS by simp
        ultimately show ?thesis using 1(1) unf by simp
      next
        case uS: False
        from relax_routes_inv[OF nn reg _ es invT du0 vis0] obtain st' where
          st': "relax_routes u (routes cs) ?st0 = Inr st'"
            "search_inv g og ?T (unvisited_stations st') (dist st') (prev st')"
            "visited st' = visited ?st0"
            "\<forall>x \<in> ?T. dist st' x = dist ?st0 x"
            "\<forall>y d. dist ?st0 y = Some (Fin d) \<longrightarrow> (\<exists>d'. dist st' y = Some (Fin d') \<and> d' \<le> d)"
            "\<forall>(v, w) \<in> set (routes cs). v \<notin> ?T \<longrightarrow>
               (\<exists>dv. dist st' v = Some (Fin dv) \<and> dv \<le> du + w)"
          by blast
        let ?st1 = "st'\<lparr>visited := insert u (visited st')\<rparr>"
        have unf: "search g og dest st = search g og dest ?st1"
          using search_continue[OF False pop(1)[unfolded item] nd cs st'(1)] .
        have v1: "visited ?st1 = ?T" using st'(3) by simp
        have rel1: "relaxed g ?T (dist st')"
          unfolding relaxed_def
        proof (intro ballI allI impI)
          fix x y w assume x: "x \<in> ?T" and e: "edge g x y w \<and> y \<notin> ?T"
          show "\<exists>dx dy. dist st' x = Some (Fin dx) \<and> dist st' y = Some (Fin dy) \<and> dy \<le> dx + w"
          proof (cases "x = u")
            case True
            then have "(y, w) \<in> set (routes cs)" using e cs route_of_edge[of g u y w] by auto
            then obtain dv where "dist st' y = Some (Fin dv)" "dv \<le> du + w"
              using st'(6) e by fastforce
            moreover have "dist st' u = Some (Fin du)" using st'(4) du0 by simp
            ultimately show ?thesis using True by simp
          next
            case False
            then have xS: "x \<in> ?S" using x by simp
            then obtain dx dy where d: "?ds x = Some (Fin dx)" "?ds y = Some (Fin dy)" "dy \<le> dx + w"
              using rel e unfolding relaxed_def by fastforce
            have "dist st' x = Some (Fin dx)" using st'(4) x d(1) by auto
            moreover obtain dy' where "dist st' y = Some (Fin dy')" "dy' \<le> dy"
              using st'(5) d(2) by fastforce
            ultimately show ?thesis using d(3) by fastforce
          qed
        qed
        have "outer_inv g og dest ?st1"
          unfolding outer_inv_def v1 using st'(2) rel1 dS nd Sg ug by simp
        moreover have "card (fst ` set g - ?T) < card (fst ` set g - ?S)"
          using ug uS by (intro psubset_card_mono) auto
        then have "(?st1, st) \<in> measures
            [\<lambda>st. card (fst ` set g - visited st), \<lambda>st. length (unvisited_stations st)]"
          using v1 by simp
        ultimately show ?thesis using 1(1) unf by simp
      qed
    qed
  qed
qed

lemma initial_dist_fold:
  "foldl (\<lambda>d (k, station). d(name station \<mapsto> (if name station = og then Fin 0 else MathInf)))
     m (g :: StationMap) x =
     (if x \<in> name ` snd ` set g then Some (if x = og then Fin 0 else MathInf) else m x)"
proof -
  define f :: "(string \<rightharpoonup> distance) \<Rightarrow> string \<times> Station \<Rightarrow> (string \<rightharpoonup> distance)"
    where "f = (\<lambda>d (k, station). d(name station \<mapsto> (if name station = og then Fin 0 else MathInf)))"
  have f_app: "f m (k, s) y = (if y = name s then Some (if y = og then Fin 0 else MathInf) else m y)"
    for m k s y by (simp add: f_def)
  have "foldl f m g x =
          (if x \<in> name ` snd ` set g then Some (if x = og then Fin 0 else MathInf) else m x)"
  proof (induction g arbitrary: m)
    case Nil
    show ?case by simp
  next
    case (Cons a g)
    obtain k s where a: "a = (k, s)" by (cases a)
    have "foldl f m (a # g) x = foldl f (f m (k, s)) g x" by (simp add: a)
    also have "\<dots> = (if x \<in> name ` snd ` set g then Some (if x = og then Fin 0 else MathInf)
                       else f m (k, s) x)"
      by (rule Cons.IH)
    also have "\<dots> = (if x \<in> name ` snd ` set (a # g)
                       then Some (if x = og then Fin 0 else MathInf) else m x)"
      by (simp add: f_app a)
    finally show ?case .
  qed
  then show ?thesis by (simp add: f_def)
qed

lemma initial_dist_eq:
  assumes "well_formed g"
  shows "initial_dist g og x =
           (if x \<in> fst ` set g then Some (if x = og then Fin 0 else MathInf) else None)"
proof -
  have "\<forall>(k, s) \<in> set g. name s = k" using assms unfolding well_formed_def by auto
  then have "name ` snd ` set g = fst ` set g" by force
  then show ?thesis unfolding initial_dist_def initial_dist_fold by simp
qed

lemma heappush_single: "heappush [] x = Inr [x]"
  by (simp add: heappush_def siftdown_def siftdown_loop_stop)

lemma initial_outer_inv:
  assumes wf: "well_formed g" and og: "og \<in> fst ` set g"
  shows "outer_inv g og dest
           \<lparr>unvisited_stations = [(Fin 0, og)], visited = {},
            dist = initial_dist g og, prev = Map.empty\<rparr>"
proof -
  let ?ds = "initial_dist g og"
  have fin: "?ds v = Some (Fin d) \<longleftrightarrow> v = og \<and> d = 0" for v d
    using og by (auto simp: initial_dist_eq[OF wf])
  have "heap_ordered [(Fin 0, og)]" by (simp add: heap_ordered_def)
  moreover have "dom ?ds = fst ` set g"
    by (force simp: initial_dist_eq[OF wf] dom_def split: if_splits)
  moreover have "?ds og = Some (Fin 0)" using fin by simp
  moreover have "prev_settled {} Map.empty" by (simp add: prev_settled_def)
  moreover have "reached g og {} ?ds Map.empty"
    unfolding reached_def
  proof (intro allI impI)
    fix v d assume "?ds v = Some (Fin d)"
    then have "v = og" "d = 0" using fin by auto
    moreover have "pchain g Map.empty og [og] og 0" by (rule pchain_start)
    ultimately show "\<exists>p. pchain g Map.empty og p v d \<and> distinct p \<and> set (butlast p) \<subseteq> {}"
      by (intro exI[of _ "[og]"]) simp
  qed
  moreover have "settled_optimal g og {} ?ds" by (simp add: settled_optimal_def)
  moreover have "queue_bounds [(Fin 0, og)] ?ds" using fin by (simp add: queue_bounds_def)
  moreover have "queued {} [(Fin 0, og)] ?ds" using fin by (simp add: queued_def)
  moreover have "relaxed g {} ?ds" by (simp add: relaxed_def)
  ultimately show ?thesis by (simp add: outer_inv_def search_inv_def)
qed

lemma find_shortest_route_total:
  assumes wf: "well_formed g" and nn: "non_negative g"
    and og: "og \<in> fst ` set g" and dest: "dest \<in> fst ` set g" and ne: "og \<noteq> dest"
  shows "(\<exists>p d. find_shortest_route g og dest = Some (Inr (Fin d, Some (length p - 2))) \<and>
            path g og p dest d \<and> distinct p \<and> (\<forall>p' d'. path g og p' dest d' \<longrightarrow> d \<le> d')) \<or>
         (find_shortest_route g og dest = Some (Inr (MathInf, None)) \<and>
            (\<forall>p d. \<not> path g og p dest d))"
proof -
  have "find_shortest_route g og dest =
          search g og dest \<lparr>unvisited_stations = [(Fin 0, og)], visited = {},
                            dist = initial_dist g og, prev = Map.empty\<rparr>"
    using og dest ne by (simp add: find_shortest_route_def heappush_single)
  then show ?thesis
    using search_total[OF wf nn ne initial_outer_inv[OF wf og, of dest]] by simp
qed

lemma path_length:
  assumes "path g a p b d" "a \<noteq> b"
  shows "2 \<le> length p"
  using assms by (induction rule: path.induct) (auto dest: path_last simp: Suc_le_eq)

lemma path_no_routes:
  assumes "path g a p b d" "\<forall>y w. \<not> edge g a y w"
  shows "b = a"
  using assms by (induction rule: path.induct) auto


section \<open>The shortest route is found\<close>

text \<open>
  Claim C1, amended. On a well-formed station map (every map that \<^verbatim>\<open>add_route\<close> builds
  is one, lemma \<open>built_well_formed\<close>) whose distances are not negative, for two different
  stations of the map with a directed path from the first to the second,
  \<^verbatim>\<open>find_shortest_route\<close> returns a distance and a number of stops: the distance is the
  sum of the distances along some directed path from the origin to the destination and
  no directed path has a smaller sum, and the number of stops plus one is the number of
  routes of such a path of minimal sum (which visits no station twice). Without the
  condition on the distances the claim fails, as the map with a negative distance below
  shows.
\<close>

theorem shortest_route_found:
  assumes "well_formed stations" and "non_negative stations"
    and "origin_name \<in> station_names stations" and "destination_name \<in> station_names stations"
    and "origin_name \<noteq> destination_name"
    and "path stations origin_name q destination_name dq"
  shows "\<exists>distance stop_count p.
           find_shortest_route stations origin_name destination_name =
             Some (Inr (Fin distance, Some stop_count)) \<and>
           path stations origin_name p destination_name distance \<and>
           (\<forall>p' d'. path stations origin_name p' destination_name d' \<longrightarrow> distance \<le> d') \<and>
           distinct p \<and> stop_count + 1 = length p - 1"
proof -
  from find_shortest_route_total[OF assms(1,2) assms(3,4)[unfolded station_names_def] assms(5)]
    assms(6)
  obtain p d where r:
    "find_shortest_route stations origin_name destination_name =
       Some (Inr (Fin d, Some (length p - 2)))"
    "path stations origin_name p destination_name d" "distinct p"
    "\<forall>p' d'. path stations origin_name p' destination_name d' \<longrightarrow> d \<le> d'"
    by blast
  have "2 \<le> length p" using path_length[OF r(2) assms(5)] .
  then have "(length p - 2) + 1 = length p - 1" by simp
  then show ?thesis using r by blast
qed

theorem shortest_route_found_witness:
  "well_formed example_stations \<and> non_negative example_stations \<and>
   ''A'' \<in> station_names example_stations \<and> ''C'' \<in> station_names example_stations \<and>
   ''A'' \<noteq> ''C'' \<and> path example_stations ''A'' [''A'', ''C''] ''C'' 15 \<and>
   find_shortest_route example_stations ''A'' ''C'' = Some (Inr (Fin 10, Some 1)) \<and>
   (\<exists>distance stop_count p.
      find_shortest_route example_stations ''A'' ''C'' =
        Some (Inr (Fin distance, Some stop_count)) \<and>
      path example_stations ''A'' p ''C'' distance \<and>
      (\<forall>p' d'. path example_stations ''A'' p' ''C'' d' \<longrightarrow> distance \<le> d') \<and>
      distinct p \<and> stop_count + 1 = length p - 1)"
proof -
  have wf: "well_formed example_stations" by code_simp
  have nn: "non_negative example_stations" by code_simp
  have a: "''A'' \<in> station_names example_stations" by code_simp
  have c: "''C'' \<in> station_names example_stations" by code_simp
  have ne: "''A'' \<noteq> ''C''" by simp
  have e: "edge example_stations ''A'' ''C'' 15" by code_simp
  have p: "path example_stations ''A'' [''A'', ''C''] ''C'' 15"
    using path_extend[OF path_start e] by simp
  have v: "find_shortest_route example_stations ''A'' ''C'' = Some (Inr (Fin 10, Some 1))"
    by code_simp
  show ?thesis
    using shortest_route_found[OF wf nn a c ne p] wf nn a c p v by simp
qed

text \<open>
  With a negative distance the search can return a distance that is not minimal: on the
  map built by A to B (2), A to C (5), C to B (-10) the route from A to B is reported as
  \<^verbatim>\<open>(2, 0)\<close>, and the path through C sums to -5.
\<close>

lemma built_negative: "built negative_stations"
proof -
  have 1: "snd (add_route [] ''A'' ''B'' 2) =
             [(''A'', \<lparr>name = ''A'', routes = [(''B'', 2)]\<rparr>), (''B'', \<lparr>name = ''B'', routes = []\<rparr>)]"
    by code_simp
  have 2: "snd (add_route [(''A'', \<lparr>name = ''A'', routes = [(''B'', 2)]\<rparr>),
                            (''B'', \<lparr>name = ''B'', routes = []\<rparr>)] ''A'' ''C'' 5) =
             [(''A'', \<lparr>name = ''A'', routes = [(''B'', 2), (''C'', 5)]\<rparr>),
              (''B'', \<lparr>name = ''B'', routes = []\<rparr>),
              (''C'', \<lparr>name = ''C'', routes = []\<rparr>)]"
    by code_simp
  have 3: "snd (add_route [(''A'', \<lparr>name = ''A'', routes = [(''B'', 2), (''C'', 5)]\<rparr>),
              (''B'', \<lparr>name = ''B'', routes = []\<rparr>),
              (''C'', \<lparr>name = ''C'', routes = []\<rparr>)] ''C'' ''B'' (- 10)) = negative_stations"
    by code_simp
  show ?thesis
    using built_add[OF built_add[OF built_add[OF built_empty, of "''A''" "''B''" 2],
                                 of "''A''" "''C''" 5], of "''C''" "''B''" "- 10"]
    unfolding 1 2 3 .
qed

theorem shortest_route_found_counterexample:
  "built negative_stations \<and>
   ''A'' \<in> station_names negative_stations \<and> ''B'' \<in> station_names negative_stations \<and>
   ''A'' \<noteq> ''B'' \<and>
   find_shortest_route negative_stations ''A'' ''B'' = Some (Inr (Fin 2, Some 0)) \<and>
   path negative_stations ''A'' [''A'', ''C'', ''B''] ''B'' (- 5) \<and> (- 5 :: int) < 2"
proof -
  have a: "''A'' \<in> station_names negative_stations" by code_simp
  have b: "''B'' \<in> station_names negative_stations" by code_simp
  have v: "find_shortest_route negative_stations ''A'' ''B'' = Some (Inr (Fin 2, Some 0))"
    by code_simp
  have e1: "edge negative_stations ''A'' ''C'' 5" by code_simp
  have e2: "edge negative_stations ''C'' ''B'' (- 10)" by code_simp
  have p: "path negative_stations ''A'' [''A'', ''C'', ''B''] ''B'' (- 5)"
    using path_extend[OF path_extend[OF path_start e1] e2] by simp
  show ?thesis using built_negative a b v p by simp
qed

text \<open>
  Claim C2. On a station map with distances that are not negative, for two stations of
  the map, \<^verbatim>\<open>find_shortest_route\<close> returns: the loop over the queue ends and so does
  the walk along the predecessors, no exception is raised, and the result is a distance
  with a number of stops or the pair of infinity and \<^verbatim>\<open>None\<close>, also when the map is
  not connected.
\<close>

theorem search_terminates:
  assumes "well_formed stations" and "non_negative stations"
    and "origin_name \<in> station_names stations" and "destination_name \<in> station_names stations"
  shows "(\<exists>distance stop_count.
            find_shortest_route stations origin_name destination_name =
              Some (Inr (Fin distance, Some stop_count))) \<or>
         find_shortest_route stations origin_name destination_name = Some (Inr (MathInf, None))"
proof (cases "origin_name = destination_name")
  case True
  then show ?thesis using assms(3) by (auto simp: find_shortest_route_def station_names_def)
next
  case False
  from find_shortest_route_total[OF assms(1,2) assms(3,4)[unfolded station_names_def] False]
  show ?thesis by blast
qed

theorem search_terminates_witness:
  "well_formed example_stations \<and> non_negative example_stations \<and>
   ''C'' \<in> station_names example_stations \<and> ''A'' \<in> station_names example_stations \<and>
   ((\<exists>distance stop_count.
       find_shortest_route example_stations ''C'' ''A'' =
         Some (Inr (Fin distance, Some stop_count))) \<or>
    find_shortest_route example_stations ''C'' ''A'' = Some (Inr (MathInf, None)))"
proof -
  have wf: "well_formed example_stations" by code_simp
  have nn: "non_negative example_stations" by code_simp
  have a: "''A'' \<in> station_names example_stations" by code_simp
  have c: "''C'' \<in> station_names example_stations" by code_simp
  show ?thesis
    using search_terminates[OF wf nn c a] wf nn a c by simp
qed

section \<open>A station that cannot be reached\<close>

lemma path_station:
  assumes "path g a p b d" "a \<in> fst ` set g" "destinations_registered g"
  shows "b \<in> fst ` set g"
  using assms by (induction rule: path.induct) (auto intro: edge_registered)

lemma relax_routes_skip:
  assumes "\<forall>(v, w) \<in> set rs. v \<notin> visited st \<longrightarrow>
             (\<exists>du dv. dist st u = Some du \<and> dist st v = Some dv \<and> \<not> distance_add du w < dv)"
  shows "relax_routes u rs st = Inr st"
  using assms
proof (induction rs)
  case Nil
  show ?case by simp
next
  case (Cons r rs)
  obtain v w where r: "r = (v, w)" by (cases r)
  have rest: "relax_routes u rs st = Inr st" using Cons by simp
  show ?case
  proof (cases "v \<in> visited st")
    case True
    then show ?thesis using rest r by simp
  next
    case False
    then obtain du dv where "dist st u = Some du" "dist st v = Some dv" "\<not> distance_add du w < dv"
      using Cons.prems r by auto
    then show ?thesis using rest r False by (simp add: Let_def)
  qed
qed

lemma relax_routes_reach:
  assumes reg: "destinations_registered g" and ug: "u \<in> fst ` set g"
    and ur: "path g og pu u dpu"
    and es: "\<forall>(v, w) \<in> set rs. edge g u v w"
    and inv: "reach_inv g og st"
  shows "\<exists>st'. relax_routes u rs st = Inr st' \<and> reach_inv g og st' \<and>
           visited st' = visited st \<and>
           (\<forall>x \<in> visited st. dist st' x = dist st x) \<and>
           (\<forall>y dy. dist st y = Some dy \<longrightarrow> (\<exists>dy'. dist st' y = Some dy' \<and> dy' \<le> dy)) \<and>
           (u \<in> visited st \<longrightarrow>
              (\<forall>(v, w) \<in> set rs. v \<notin> visited st \<longrightarrow>
                 (\<exists>du dv. dist st' u = Some du \<and> dist st' v = Some dv \<and>
                    \<not> distance_add du w < dv)))"
  using es inv
proof (induction rs arbitrary: st)
  case Nil
  then show ?case by simp
next
  case (Cons r rs)
  obtain v w where r: "r = (v, w)" by (cases r)
  have e: "edge g u v w" and es': "\<forall>(v, w) \<in> set rs. edge g u v w"
    using Cons.prems(1) r by auto
  have inv: "reach_inv g og st" using Cons.prems(2) .
  have ho: "heap_ordered (unvisited_stations st)" and dm: "dom (dist st) = fst ` set g"
    and vg: "visited st \<subseteq> fst ` set g"
    and hr: "\<forall>(k, v) \<in> set (unvisited_stations st). \<exists>p d. path g og p v d"
    using inv unfolding reach_inv_def by simp_all
  obtain dc where dc: "dist st u = Some dc" using ug dm by auto
  have "v \<in> dom (dist st)" using dm edge_registered[OF reg e] by simp
  then obtain dn where dn: "dist st v = Some dn" by auto
  let ?update = "v \<notin> visited st \<and> distance_add dc w < dn"
  show ?case
  proof (cases ?update)
    case False
    then have unf: "relax_routes u (r # rs) st = relax_routes u rs st"
      using r dc dn by (auto simp: Let_def)
    from Cons.IH[OF es' inv] obtain st' where
      st': "relax_routes u rs st = Inr st'" "reach_inv g og st'"
        "visited st' = visited st"
        "\<forall>x \<in> visited st. dist st' x = dist st x"
        "\<forall>y dy. dist st y = Some dy \<longrightarrow> (\<exists>dy'. dist st' y = Some dy' \<and> dy' \<le> dy)"
        "u \<in> visited st \<longrightarrow>
              (\<forall>(v, w) \<in> set rs. v \<notin> visited st \<longrightarrow>
                 (\<exists>du dv. dist st' u = Some du \<and> dist st' v = Some dv \<and>
                    \<not> distance_add du w < dv))"
      by blast
    have "\<exists>du dv. dist st' u = Some du \<and> dist st' v = Some dv \<and> \<not> distance_add du w < dv"
      if uv: "u \<in> visited st" "v \<notin> visited st"
    proof -
      have "\<not> distance_add dc w < dn" using False uv(2) by simp
      moreover obtain dn' where "dist st' v = Some dn'" "dn' \<le> dn" using st'(5) dn by blast
      moreover have "dist st' u = Some dc" using st'(4) uv(1) dc by simp
      ultimately show ?thesis by auto
    qed
    then show ?thesis using unf st' r by auto
  next
    case True
    obtain h' where h': "heappush (unvisited_stations st) (distance_add dc w, v) = Inr h'"
      "heap_ordered h'" "mset h' = add_mset (distance_add dc w, v) (mset (unvisited_stations st))"
      using heappush_correct[OF ho, of "(distance_add dc w, v)"] by auto
    have seth: "set h' = insert (distance_add dc w, v) (set (unvisited_stations st))"
      using h'(3) by (metis set_mset_add_mset_insert set_mset_mset)
    let ?st1 = "st\<lparr>dist := (dist st)(v \<mapsto> distance_add dc w), prev := (prev st)(v \<mapsto> u),
                   unvisited_stations := h'\<rparr>"
    have unf: "relax_routes u (r # rs) st = relax_routes u rs ?st1"
      using r dc dn True h'(1) by (simp add: Let_def)
    have vr: "path g og (pu @ [v]) v (dpu + w)" using ur e by (rule path_extend)
    have inv1: "reach_inv g og ?st1"
      unfolding reach_inv_def using h'(2) dm vg hr seth vr edge_registered[OF reg e] by auto
    from Cons.IH[OF es' inv1] obtain st' where
      st': "relax_routes u rs ?st1 = Inr st'" "reach_inv g og st'"
        "visited st' = visited ?st1"
        "\<forall>x \<in> visited ?st1. dist st' x = dist ?st1 x"
        "\<forall>y dy. dist ?st1 y = Some dy \<longrightarrow> (\<exists>dy'. dist st' y = Some dy' \<and> dy' \<le> dy)"
        "u \<in> visited ?st1 \<longrightarrow>
              (\<forall>(v, w) \<in> set rs. v \<notin> visited ?st1 \<longrightarrow>
                 (\<exists>du dv. dist st' u = Some du \<and> dist st' v = Some dv \<and>
                    \<not> distance_add du w < dv))"
      by blast
    have v1: "dist ?st1 v = Some (distance_add dc w)" by simp
    from st'(5) v1 obtain dv' where dv': "dist st' v = Some dv'" "dv' \<le> distance_add dc w"
      by blast
    have a: "\<forall>x \<in> visited st. dist st' x = dist st x" using st'(4) True by auto
    have b: "\<exists>dy'. dist st' y = Some dy' \<and> dy' \<le> dy" if y: "dist st y = Some dy" for y dy
    proof (cases "y = v")
      case yv: True
      then have "dn = dy" using y dn by simp
      then have "distance_add dc w \<le> dy" using True by auto
      then show ?thesis using dv' yv by auto
    next
      case False
      then have "dist ?st1 y = Some dy" using y by simp
      then show ?thesis using st'(5) by blast
    qed
    have c: "\<exists>du dv. dist st' u = Some du \<and> dist st' v = Some dv \<and> \<not> distance_add du w < dv"
      if "u \<in> visited st"
    proof -
      have "dist st' u = Some dc" using a that dc by simp
      then show ?thesis using dv' by auto
    qed
    have d: "u \<in> visited st \<longrightarrow>
              (\<forall>(v, w) \<in> set rs. v \<notin> visited st \<longrightarrow>
                 (\<exists>du dv. dist st' u = Some du \<and> dist st' v = Some dv \<and>
                    \<not> distance_add du w < dv))"
      using st'(6) by simp
    have vis: "visited st' = visited st" using st'(3) by simp
    show ?thesis
      unfolding unf
      apply (rule exI[of _ st'])
      using st'(1,2) vis a b c d r by auto
  qed
qed

lemma stable_preserved:
  assumes "stable g st x" "x \<in> visited st" "visited st \<subseteq> visited st'"
    "\<forall>y \<in> visited st. dist st' y = dist st y"
    "\<forall>y dy. dist st y = Some dy \<longrightarrow> (\<exists>dy'. dist st' y = Some dy' \<and> dy' \<le> dy)"
  shows "stable g st' x"
  unfolding stable_def
proof (intro allI impI ballI, clarify)
  fix cs v w
  assume cs: "map_of g x = Some cs" and vw: "(v, w) \<in> set (routes cs)" and v: "v \<notin> visited st'"
  from v assms(3) have "v \<notin> visited st" by auto
  then obtain du dv where d: "dist st x = Some du" "dist st v = Some dv" "\<not> distance_add du w < dv"
    using assms(1) cs vw unfolding stable_def by fastforce
  have "dist st' x = Some du" using assms(2,4) d(1) by simp
  moreover obtain dv' where "dist st' v = Some dv'" "dv' \<le> dv" using assms(5) d(2) by blast
  ultimately show "\<exists>du dv. dist st' x = Some du \<and> dist st' v = Some dv \<and> \<not> distance_add du w < dv"
    using d(3) by auto
qed

lemma search_unreachable:
  assumes wf: "well_formed g" and og: "og \<in> fst ` set g"
    and np: "\<forall>p d. \<not> path g og p dest d"
    and inv: "reach_inv g og st"
  shows "search g og dest st = Some (Inr (MathInf, None))"
  using inv
proof (induction st rule: wf_induct_rule[OF wf_measures[of
          "[\<lambda>st. card (fst ` set g - visited st),
            \<lambda>st. card {u \<in> visited st. \<not> stable g st u},
            \<lambda>st. length (unvisited_stations st)]"]])
  case (1 st)
  let ?S = "visited st" and ?h = "unvisited_stations st"
  let ?M = "measures [\<lambda>st. card (fst ` set g - visited st),
                      \<lambda>st. card {u \<in> visited st. \<not> stable g st u},
                      \<lambda>st. length (unvisited_stations st)]"
  have reg: "destinations_registered g" using wf by (simp add: well_formed_def)
  have ho: "heap_ordered ?h" and dm: "dom (dist st) = fst ` set g"
    and Sg: "?S \<subseteq> fst ` set g"
    and hr: "\<forall>(k, v) \<in> set ?h. \<exists>p d. path g og p v d"
    using 1(2) unfolding reach_inv_def by simp_all
  show ?case
  proof (cases "?h = []")
    case True
    then show ?thesis by (rule search_empty)
  next
    case False
    from heappop_correct[OF ho False] obtain item rest where
      pop: "heappop ?h = Inr (item, rest)" "heap_ordered rest"
        "mset ?h = add_mset item (mset rest)"
      by blast
    obtain k u where item: "item = (k, u)" by (cases item)
    note pr = popped_rest[OF pop(3)]
    obtain pu dpu where ur: "path g og pu u dpu" using hr pr(1) item by fastforce
    have nd: "u \<noteq> dest" using ur np by auto
    have ug: "u \<in> fst ` set g" using path_station[OF ur og reg] .
    from station_lookup[OF ug] obtain cs where cs: "map_of g u = Some cs" by blast
    have es: "\<forall>(v, w) \<in> set (routes cs). edge g u v w"
      using edge_of_route[OF wf cs] by auto
    let ?st0 = "st\<lparr>unvisited_stations := rest\<rparr>"
    have inv0: "reach_inv g og ?st0"
      unfolding reach_inv_def using pop(2) dm Sg hr pr(2) by auto
    from relax_routes_reach[OF reg ug ur es inv0] obtain st' where
      raw: "relax_routes u (routes cs) ?st0 = Inr st'" "reach_inv g og st'"
        "visited st' = visited ?st0"
        "\<forall>x \<in> visited ?st0. dist st' x = dist ?st0 x"
        "\<forall>y dy. dist ?st0 y = Some dy \<longrightarrow> (\<exists>dy'. dist st' y = Some dy' \<and> dy' \<le> dy)"
        "u \<in> visited ?st0 \<longrightarrow>
              (\<forall>(v, w) \<in> set (routes cs). v \<notin> visited ?st0 \<longrightarrow>
                 (\<exists>du dv. dist st' u = Some du \<and> dist st' v = Some dv \<and>
                    \<not> distance_add du w < dv))"
      by blast
    have st': "relax_routes u (routes cs) ?st0 = Inr st'" "reach_inv g og st'"
        "visited st' = ?S"
        "\<forall>x \<in> ?S. dist st' x = dist st x"
        "\<forall>y dy. dist st y = Some dy \<longrightarrow> (\<exists>dy'. dist st' y = Some dy' \<and> dy' \<le> dy)"
        "u \<in> ?S \<longrightarrow>
              (\<forall>(v, w) \<in> set (routes cs). v \<notin> ?S \<longrightarrow>
                 (\<exists>du dv. dist st' u = Some du \<and> dist st' v = Some dv \<and>
                    \<not> distance_add du w < dv))"
      using raw by simp_all
    let ?st1 = "st'\<lparr>visited := insert u (visited st')\<rparr>"
    have unf: "search g og dest st = search g og dest ?st1"
      using search_continue[OF False pop(1)[unfolded item] nd cs st'(1)] .
    have inv1: "reach_inv g og ?st1"
      using st'(2) ug unfolding reach_inv_def by simp
    have less: "(?st1, st) \<in> ?M"
    proof (cases "u \<in> ?S")
      case False
      have "card (fst ` set g - insert u ?S) < card (fst ` set g - ?S)"
        using ug False by (intro psubset_card_mono) auto
      then show ?thesis using st'(3) by simp
    next
      case True
      then have v1: "visited ?st1 = ?S" using st'(3) by auto
      have keep: "stable g ?st1 x" if "stable g st x" "x \<in> ?S" for x
        using that v1 st'(4,5) by (intro stable_preserved[of g st x ?st1]) auto
      show ?thesis
      proof (cases "stable g st u")
        case stu: True
        have "\<forall>(v, w) \<in> set (routes cs). v \<notin> visited ?st0 \<longrightarrow>
                (\<exists>du dv. dist ?st0 u = Some du \<and> dist ?st0 v = Some dv \<and>
                   \<not> distance_add du w < dv)"
          using stu cs unfolding stable_def by auto
        from relax_routes_skip[OF this] st'(1) have eq: "st' = ?st0" by simp
        have "stable g ?st1 x = stable g st x" for x
          unfolding stable_def eq using True by (simp add: insert_absorb)
        then have "{x \<in> visited ?st1. \<not> stable g ?st1 x} = {x \<in> ?S. \<not> stable g st x}"
          using v1 by simp
        moreover have "length (unvisited_stations ?st1) < length ?h"
          using pr(3) eq by simp
        ultimately show ?thesis using v1 by simp
      next
        case nst: False
        have "stable g ?st1 u"
          unfolding stable_def using st'(6) True cs v1 by auto
        then have "{x \<in> visited ?st1. \<not> stable g ?st1 x} \<subseteq> {x \<in> ?S. \<not> stable g st x} - {u}"
          using keep v1 by auto
        moreover have "u \<in> {x \<in> ?S. \<not> stable g st x}" using True nst by simp
        ultimately have psub:
          "{x \<in> visited ?st1. \<not> stable g ?st1 x} \<subset> {x \<in> ?S. \<not> stable g st x}"
          by blast
        have "finite (fst ` set g)" by simp
        then have fin: "finite {x \<in> ?S. \<not> stable g st x}"
          using Sg by (elim finite_subset[rotated]) auto
        have "card {x \<in> visited ?st1. \<not> stable g ?st1 x} < card {x \<in> ?S. \<not> stable g st x}"
          using psubset_card_mono[OF fin psub] .
        then show ?thesis using v1 by simp
      qed
    qed
    show ?thesis using 1(1)[OF less inv1] unf by simp
  qed
qed

lemma initial_reach_inv:
  assumes wf: "well_formed g" and og: "og \<in> fst ` set g"
  shows "reach_inv g og
           \<lparr>unvisited_stations = [(Fin 0, og)], visited = {},
            dist = initial_dist g og, prev = Map.empty\<rparr>"
proof -
  have "heap_ordered [(Fin 0, og)]" by (simp add: heap_ordered_def)
  moreover have "dom (initial_dist g og) = fst ` set g"
    by (force simp: initial_dist_eq[OF wf] dom_def split: if_splits)
  moreover have "path g og [og] og 0" by (rule path_start)
  ultimately show ?thesis unfolding reach_inv_def by auto
qed

lemma find_shortest_route_unreachable:
  assumes wf: "well_formed g"
    and og: "og \<in> fst ` set g" and dest: "dest \<in> fst ` set g" and ne: "og \<noteq> dest"
    and np: "\<forall>p d. \<not> path g og p dest d"
  shows "find_shortest_route g og dest = Some (Inr (MathInf, None))"
proof -
  have "find_shortest_route g og dest =
          search g og dest \<lparr>unvisited_stations = [(Fin 0, og)], visited = {},
                            dist = initial_dist g og, prev = Map.empty\<rparr>"
    using og dest ne by (simp add: find_shortest_route_def heappush_single)
  then show ?thesis
    using search_unreachable[OF wf og np initial_reach_inv[OF wf og]] by simp
qed

text \<open>
  Claim C3. For two different stations of the map with no directed path from the first to
  the second, \<^verbatim>\<open>find_shortest_route\<close> returns infinity and \<^verbatim>\<open>None\<close>: it returns, and
  raises nothing. This holds for all integer distances, negative ones included.
\<close>

theorem unreachable_station:
  assumes "well_formed stations"
    and "origin_name \<in> station_names stations" and "destination_name \<in> station_names stations"
    and "origin_name \<noteq> destination_name"
    and "\<forall>p d. \<not> path stations origin_name p destination_name d"
  shows "find_shortest_route stations origin_name destination_name = Some (Inr (MathInf, None))"
  using find_shortest_route_unreachable[OF assms(1) assms(2,3)[unfolded station_names_def]
          assms(4,5)] .

theorem unreachable_station_witness:
  "well_formed example_stations \<and>
   ''C'' \<in> station_names example_stations \<and> ''A'' \<in> station_names example_stations \<and>
   ''C'' \<noteq> ''A'' \<and> (\<forall>p d. \<not> path example_stations ''C'' p ''A'' d) \<and>
   find_shortest_route example_stations ''C'' ''A'' = Some (Inr (MathInf, None))"
proof -
  have wf: "well_formed example_stations" by code_simp
  have a: "''A'' \<in> station_names example_stations" by code_simp
  have c: "''C'' \<in> station_names example_stations" by code_simp
  have ne: "''C'' \<noteq> ''A''" by simp
  have "\<forall>y w. \<not> edge example_stations ''C'' y w"
    by (simp add: edge_def example_stations_def)
  then have np: "\<forall>p d. \<not> path example_stations ''C'' p ''A'' d"
    using path_no_routes ne by blast
  show ?thesis
    using unreachable_station[OF wf c a ne np] wf a c np by simp
qed


section \<open>The query leaves the station map as it is\<close>

lemma relax_routes_in_frame:
  "self_stations (snd (relax_routes_in current rs m)) = self_stations m"
proof (induction rs arbitrary: m)
  case Nil
  show ?case by simp
next
  case (Cons r rs)
  obtain v w where r: "r = (v, w)" by (cases r)
  show ?case unfolding r
    by (simp add: Cons.IH Let_def split: option.splits sum.splits)
qed

lemma relax_routes_in_frame':
  "relax_routes_in current rs m = (r, m') \<Longrightarrow> self_stations m' = self_stations m"
  using relax_routes_in_frame[of current rs m] by simp

lemma search_in_frame:
  assumes "search_in origin destination m = Some y"
  shows "self_stations (snd y) = self_stations m"
proof (rule search_in.raw_induct[where P = "\<lambda>og d m y. self_stations (snd y) = self_stations m",
        OF _ assms])
  fix srch :: "string \<Rightarrow> string \<Rightarrow> memory \<Rightarrow> ((error + route_result) \<times> memory) option"
  fix origin destination m y
  assume IH: "\<And>origin destination m y.
                srch origin destination m = Some y \<Longrightarrow> self_stations (snd y) = self_stations m"
  assume step: "(if 0 < length (unvisited_stations m) then
        (case heappop (unvisited_stations m) of
           Inl e \<Rightarrow> Some (Inl e, m)
         | Inr popped \<Rightarrow>
             (if snd (fst popped) = destination then
                (case dist (m\<lparr>unvisited_stations := snd popped\<rparr>) (snd (fst popped)) of
                   None \<Rightarrow> Some (Inl KeyError, m\<lparr>unvisited_stations := snd popped\<rparr>)
                 | Some d \<Rightarrow>
                     (case count_stops (snd (fst popped)) origin
                             (prev (m\<lparr>unvisited_stations := snd popped\<rparr>)) 0 of
                        None \<Rightarrow> None
                      | Some (Inl e) \<Rightarrow> Some (Inl e, m\<lparr>unvisited_stations := snd popped\<rparr>)
                      | Some (Inr stops) \<Rightarrow>
                          Some (Inr (d, Some stops), m\<lparr>unvisited_stations := snd popped\<rparr>)))
              else
                (case map_of (self_stations (m\<lparr>unvisited_stations := snd popped\<rparr>))
                        (snd (fst popped)) of
                   None \<Rightarrow> Some (Inl KeyError, m\<lparr>unvisited_stations := snd popped\<rparr>)
                 | Some current_station \<Rightarrow>
                     (case relax_routes_in (snd (fst popped)) (routes current_station)
                             (m\<lparr>unvisited_stations := snd popped\<rparr>) of
                        (Inl e, m') \<Rightarrow> Some (Inl e, m')
                      | (Inr u, m') \<Rightarrow>
                          srch origin destination
                            (m'\<lparr>visited := insert (snd (fst popped)) (visited m')\<rparr>)))))
      else Some (Inr (MathInf, None), m)) = Some y"
  show "self_stations (snd y) = self_stations m"
  proof (cases "0 < length (unvisited_stations m)")
    case False
    then show ?thesis using step by auto
  next
    case ne: True
    show ?thesis
    proof (cases "heappop (unvisited_stations m)")
      case (Inl e)
      then show ?thesis using step ne by auto
    next
      case (Inr popped)
      let ?m1 = "m\<lparr>unvisited_stations := snd popped\<rparr>"
      show ?thesis
      proof (cases "snd (fst popped) = destination")
        case True
        then show ?thesis using step ne Inr
          by (auto split: option.splits sum.splits)
      next
        case nd: False
        show ?thesis
        proof (cases "map_of (self_stations ?m1) (snd (fst popped))")
          case None
          then show ?thesis using step ne Inr nd by auto
        next
          case (Some cs)
          obtain r m' where rr: "relax_routes_in (snd (fst popped)) (routes cs) ?m1 = (r, m')"
            by (cases "relax_routes_in (snd (fst popped)) (routes cs) ?m1")
          have m': "self_stations m' = self_stations m"
            using relax_routes_in_frame'[OF rr] by simp
          show ?thesis
          proof (cases r)
            case (Inl e)
            then show ?thesis using step ne Inr nd Some rr m' by auto
          next
            case (Inr u)
            then have "srch origin destination
                         (m'\<lparr>visited := insert (snd (fst popped)) (visited m')\<rparr>) = Some y"
              using step ne \<open>heappop (unvisited_stations m) = Inr popped\<close> nd Some rr by auto
            from IH[OF this] show ?thesis using m' by simp
          qed
        qed
      qed
    qed
  qed
qed

lemma find_shortest_route_in_frame:
  assumes "find_shortest_route_in stations origin_name destination_name = Some (outcome, stations')"
  shows "stations' = stations"
proof (cases "origin_name \<in> fst ` set stations \<and> destination_name \<in> fst ` set stations \<and>
              origin_name \<noteq> destination_name")
  case False
  then show ?thesis using assms by (auto simp: find_shortest_route_in_def split: if_splits)
next
  case True
  let ?m0 = "\<lparr>unvisited_stations = [(Fin 0, origin_name)], visited = {},
              dist = initial_dist stations origin_name, prev = Map.empty,
              self_stations = stations\<rparr>"
  from assms True obtain m where
    "search_in origin_name destination_name ?m0 = Some (outcome, m)" "stations' = self_stations m"
    by (auto simp: find_shortest_route_in_def heappush_single split: option.splits)
  then show ?thesis using search_in_frame[of origin_name destination_name ?m0 "(outcome, m)"]
    by simp
qed

lemma truncate_simps:
  "unvisited_stations (search_state.truncate m) = unvisited_stations m"
  "visited (search_state.truncate m) = visited m"
  "dist (search_state.truncate m) = dist m"
  "prev (search_state.truncate m) = prev m"
  "search_state.truncate (m\<lparr>unvisited_stations := h\<rparr>) = (search_state.truncate m)\<lparr>unvisited_stations := h\<rparr>"
  "search_state.truncate (m\<lparr>visited := vs\<rparr>) = (search_state.truncate m)\<lparr>visited := vs\<rparr>"
  "search_state.truncate (m\<lparr>dist := ds\<rparr>) = (search_state.truncate m)\<lparr>dist := ds\<rparr>"
  "search_state.truncate (m\<lparr>prev := pv\<rparr>) = (search_state.truncate m)\<lparr>prev := pv\<rparr>"
  by (simp_all add: search_state.truncate_def)

lemma relax_routes_in_refines:
  "relax_routes current rs (search_state.truncate m) =
     (case relax_routes_in current rs m of
        (Inl e, m') \<Rightarrow> Inl e
      | (Inr u, m') \<Rightarrow> Inr (search_state.truncate m'))"
proof (induction rs arbitrary: m)
  case Nil
  show ?case by simp
next
  case (Cons r rs)
  obtain v w where r: "r = (v, w)" by (cases r)
  show ?case unfolding r
    by (simp add: Cons.IH[symmetric] truncate_simps Let_def split: option.splits sum.splits)
qed

lemma search_in_sound:
  assumes "search_in origin destination m = Some y"
  shows "search (self_stations m) origin destination (search_state.truncate m) = Some (fst y)"
  apply (rule search_in.raw_induct[where
        P = "\<lambda>og d m y. search (self_stations m) og d (search_state.truncate m) = Some (fst y)",
        OF _ assms])
  subgoal premises p for srch og d m y
  proof (cases "0 < length (unvisited_stations m)")
    case False
    then show ?thesis using p(2) by (subst search.simps) (auto simp: truncate_simps)
  next
    case ne: True
    show ?thesis
    proof (cases "heappop (unvisited_stations m)")
      case (Inl e)
      then show ?thesis using p(2) ne by (subst search.simps) (auto simp: truncate_simps)
    next
      case (Inr popped)
      let ?m1 = "m\<lparr>unvisited_stations := snd popped\<rparr>"
      show ?thesis
      proof (cases "snd (fst popped) = d")
        case True
        then show ?thesis using p(2) ne Inr
          by (subst search.simps) (auto simp: truncate_simps split: option.splits sum.splits)
      next
        case nd: False
        show ?thesis
        proof (cases "map_of (self_stations m) (snd (fst popped))")
          case None
          then show ?thesis using p(2) ne Inr nd
            by (subst search.simps) (auto simp: truncate_simps)
        next
          case (Some cs)
          obtain r m' where rr: "relax_routes_in (snd (fst popped)) (routes cs) ?m1 = (r, m')"
            by (cases "relax_routes_in (snd (fst popped)) (routes cs) ?m1")
          have fr: "self_stations m' = self_stations m"
            using relax_routes_in_frame'[OF rr] by simp
          have ref: "relax_routes (snd (fst popped)) (routes cs)
                       ((search_state.truncate m)\<lparr>unvisited_stations := snd popped\<rparr>) =
                     (case r of Inl e \<Rightarrow> Inl e | Inr u \<Rightarrow> Inr (search_state.truncate m'))"
            using relax_routes_in_refines[of "snd (fst popped)" "routes cs" ?m1] rr
            by (simp add: truncate_simps)
          show ?thesis
          proof (cases r)
            case (Inl e)
            then show ?thesis using p(2) ne Inr nd Some rr ref
              by (subst search.simps) (auto simp: truncate_simps)
          next
            case (Inr u)
            let ?m2 = "m'\<lparr>visited := insert (snd (fst popped)) (visited m')\<rparr>"
            have "srch og d ?m2 = Some y"
              using p(2) ne \<open>heappop (unvisited_stations m) = Inr popped\<close> nd Some rr Inr by auto
            from p(1)[OF this] have
              "search (self_stations m) og d (search_state.truncate ?m2) = Some (fst y)"
              using fr by simp
            then show ?thesis
              using ne \<open>heappop (unvisited_stations m) = Inr popped\<close> nd Some ref Inr
              by (subst search.simps) (simp add: truncate_simps)
          qed
        qed
      qed
    qed
  qed
  done

lemma search_in_complete:
  assumes "search g origin destination st = Some r"
  shows "\<forall>m. self_stations m = g \<and> search_state.truncate m = st \<longrightarrow>
           (\<exists>m'. search_in origin destination m = Some (r, m'))"
  apply (rule search.raw_induct[where
        P = "\<lambda>g og d st r. \<forall>m. self_stations m = g \<and> search_state.truncate m = st \<longrightarrow>
                              (\<exists>m'. search_in og d m = Some (r, m'))",
        OF _ assms])
  subgoal premises p for srch g og d st r
  proof (intro allI impI)
    fix m :: memory
    assume m: "self_stations m = g \<and> search_state.truncate m = st"
    then have st: "unvisited_stations st = unvisited_stations m" "dist st = dist m"
      "prev st = prev m" "visited st = visited m"
      using truncate_simps(1-4)[of m] by auto
    show "\<exists>m'. search_in og d m = Some (r, m')"
    proof (cases "0 < length (unvisited_stations m)")
      case False
      then show ?thesis using p(2) st by (subst search_in.simps) auto
    next
      case ne: True
      show ?thesis
      proof (cases "heappop (unvisited_stations m)")
        case (Inl e)
        then show ?thesis using p(2) ne st by (subst search_in.simps) auto
      next
        case (Inr popped)
        let ?m1 = "m\<lparr>unvisited_stations := snd popped\<rparr>"
        show ?thesis
        proof (cases "snd (fst popped) = d")
          case True
          then show ?thesis using p(2) ne Inr st
            by (subst search_in.simps) (auto split: option.splits sum.splits)
        next
          case nd: False
          show ?thesis
          proof (cases "map_of g (snd (fst popped))")
            case None
            then show ?thesis using p(2) ne Inr nd st m
              by (subst search_in.simps) auto
          next
            case (Some cs)
            obtain rr m' where rr: "relax_routes_in (snd (fst popped)) (routes cs) ?m1 = (rr, m')"
              by (cases "relax_routes_in (snd (fst popped)) (routes cs) ?m1")
            have fr: "self_stations m' = g"
              using relax_routes_in_frame'[OF rr] m by simp
            have ref: "relax_routes (snd (fst popped)) (routes cs)
                         (st\<lparr>unvisited_stations := snd popped\<rparr>) =
                       (case rr of Inl e \<Rightarrow> Inl e | Inr u \<Rightarrow> Inr (search_state.truncate m'))"
              using relax_routes_in_refines[of "snd (fst popped)" "routes cs" ?m1] rr m
              by (auto simp: truncate_simps)
            show ?thesis
            proof (cases rr)
              case (Inl e)
              then show ?thesis using p(2) ne Inr nd Some rr ref st m
                by (subst search_in.simps) auto
            next
              case (Inr u)
              let ?m2 = "m'\<lparr>visited := insert (snd (fst popped)) (visited m')\<rparr>"
              have "srch g og d (search_state.truncate ?m2) = Some r"
                using p(2) ne \<open>heappop (unvisited_stations m) = Inr popped\<close> nd Some ref Inr st
                by (auto simp: truncate_simps)
              from p(1)[OF this] have
                "self_stations ?m2 = g \<and>
                 search_state.truncate ?m2 = search_state.truncate ?m2 \<longrightarrow>
                 (\<exists>m''. search_in og d ?m2 = Some (r, m''))"
                by (rule spec)
              then obtain m'' where "search_in og d ?m2 = Some (r, m'')"
                using fr by auto
              then show ?thesis
                using ne \<open>heappop (unvisited_stations m) = Inr popped\<close> nd Some rr Inr m
                by (subst search_in.simps) auto
            qed
          qed
        qed
      qed
    qed
  qed
  done

lemma search_in_refines:
  "map_option fst (search_in origin destination m) =
     search (self_stations m) origin destination (search_state.truncate m)"
proof (cases "search_in origin destination m")
  case (Some y)
  then show ?thesis using search_in_sound[OF Some] by simp
next
  case None
  have "search (self_stations m) origin destination (search_state.truncate m) = None"
  proof (rule ccontr)
    assume "search (self_stations m) origin destination (search_state.truncate m) \<noteq> None"
    then obtain r where
      "search (self_stations m) origin destination (search_state.truncate m) = Some r" by auto
    from search_in_complete[OF this] None show False by auto
  qed
  then show ?thesis using None by simp
qed

lemma find_shortest_route_in_refines:
  "map_option fst (find_shortest_route_in stations origin_name destination_name) =
     find_shortest_route stations origin_name destination_name"
proof -
  let ?m0 = "\<lparr>unvisited_stations = [(Fin 0, origin_name)], visited = {},
              dist = initial_dist stations origin_name, prev = Map.empty,
              self_stations = stations\<rparr>"
  have t: "search_state.truncate ?m0 =
             \<lparr>unvisited_stations = [(Fin 0, origin_name)], visited = {},
              dist = initial_dist stations origin_name, prev = Map.empty\<rparr>"
    by (simp add: search_state.truncate_def)
  have "map_option fst (case search_in origin_name destination_name ?m0 of
                          None \<Rightarrow> None
                        | Some (outcome, m) \<Rightarrow> Some (outcome, self_stations m)) =
        map_option fst (search_in origin_name destination_name ?m0)"
    by (auto split: option.splits)
  then show ?thesis
    using search_in_refines[of origin_name destination_name ?m0]
    by (simp add: find_shortest_route_in_def find_shortest_route_def heappush_single t)
qed

text \<open>
  Claim C9. Whenever \<^verbatim>\<open>find_shortest_route\<close> ends, with a result, with the sentinel of
  a station that cannot be reached or with an exception, \<^verbatim>\<open>self.stations\<close> is what it
  was before the call: the same names, the same routes of every station, the same
  distances. The outcomes of the call on the memory are those of
  \<^const>\<open>find_shortest_route\<close>.
\<close>

theorem query_leaves_station_map:
  "(find_shortest_route_in stations origin_name destination_name = Some (outcome, stations')
      \<longrightarrow> stations' = stations) \<and>
   map_option fst (find_shortest_route_in stations origin_name destination_name) =
     find_shortest_route stations origin_name destination_name"
  using find_shortest_route_in_frame[of stations origin_name destination_name outcome stations']
    find_shortest_route_in_refines[of stations origin_name destination_name]
  by blast

theorem query_leaves_station_map_witness:
  "find_shortest_route_in example_stations ''A'' ''C'' =
     Some (Inr (Fin 10, Some 1), example_stations) \<and>
   find_shortest_route_in example_stations ''C'' ''A'' =
     Some (Inr (MathInf, None), example_stations) \<and>
   find_shortest_route_in example_stations ''A'' ''Z'' =
     Some (Inl (StationDoesNotExistError ''Station: 'Z' does not exist.''), example_stations)"
proof -
  have same: "x = Some (outcome, example_stations)"
    if "map_option fst x = Some outcome"
       "\<And>s'. x = Some (outcome, s') \<longrightarrow> s' = example_stations"
    for x :: "((error + route_result) \<times> StationMap) option" and outcome
    using that by (cases x) auto
  have v1: "find_shortest_route example_stations ''A'' ''C'' = Some (Inr (Fin 10, Some 1))"
    by code_simp
  have v2: "find_shortest_route example_stations ''C'' ''A'' = Some (Inr (MathInf, None))"
    by code_simp
  have v3: "find_shortest_route example_stations ''A'' ''Z'' =
              Some (Inl (StationDoesNotExistError ''Station: 'Z' does not exist.''))"
    by code_simp
  have 1: "find_shortest_route_in example_stations ''A'' ''C'' =
             Some (Inr (Fin 10, Some 1), example_stations)"
    using query_leaves_station_map[of example_stations "''A''" "''C''" "Inr (Fin 10, Some 1)"] v1
    by (intro same) simp_all
  have 2: "find_shortest_route_in example_stations ''C'' ''A'' =
             Some (Inr (MathInf, None), example_stations)"
    using query_leaves_station_map[of example_stations "''C''" "''A''" "Inr (MathInf, None)"] v2
    by (intro same) simp_all
  have 3: "find_shortest_route_in example_stations ''A'' ''Z'' =
             Some (Inl (StationDoesNotExistError ''Station: 'Z' does not exist.''),
                   example_stations)"
    using query_leaves_station_map[of example_stations "''A''" "''Z''"
            "Inl (StationDoesNotExistError ''Station: 'Z' does not exist.'')"] v3
    by (intro same) simp_all
  show ?thesis using 1 2 3 by simp
qed

end
